theory Spec2Isabelle
  imports Main
begin

section \<open>JavaScript values used by \<^verbatim>\<open>tsrc/flowResult.js\<close>\<close>

text \<open>
  A property of a JavaScript object is missing (reading it gives \<^verbatim>\<open>undefined\<close>), holds
  \<^verbatim>\<open>null\<close>, or holds a value. The source tests \<^verbatim>\<open>x != null\<close>, which treats the first
  two alike, but \<^verbatim>\<open>util.format\<close> and \<^verbatim>\<open>JSON.stringify\<close> tell them apart, so the
  three cases are kept. A property that is present with the value \<^verbatim>\<open>undefined\<close> is not
  distinguished from a missing one: no exported operation of the source can tell
  (\<^verbatim>\<open>JSON.stringify\<close> leaves both out, and \<^verbatim>\<open>prettyPrint\<close> works on a copy made
  through \<^verbatim>\<open>JSON.stringify\<close>).

  The properties of an object have an order, the order in which they were created, and
  \<^verbatim>\<open>JSON.stringify\<close> writes them in that order. An object of the model carries the list of
  its property names in that order (\<open>pos_keys\<close>, \<open>loc_keys\<close>, \<open>msg_keys\<close> below).
  \<open>key_order\<close> reads such a list as an order of all the names of the type: the names
  listed, in the order of the list, and after them the names the list lacks, in the
  order of the type declaration. So every list stands for an order, and a list that
  names every property once stands for itself.

  Numbers are modelled as mathematical integers (line and column numbers, indents,
  lengths). Resource limits of an engine (the largest array or string) are not part of
  the model; the \<^verbatim>\<open>RangeError\<close> of \<^verbatim>\<open>Array(n)\<close> for a negative \<open>n\<close> is.
  Strings are lists of characters, one \<open>char\<close> per code unit.
\<close>

datatype 'a js = Undefined | Null | Val 'a

datatype js_error = TypeError | RangeError

text \<open>The sequencing of a computation that may throw.\<close>

definition bind :: "js_error + 'a \<Rightarrow> ('a \<Rightarrow> js_error + 'b) \<Rightarrow> js_error + 'b" where
  "bind x f = (case x of Inl e \<Rightarrow> Inl e | Inr v \<Rightarrow> f v)"

text \<open>\<^verbatim>\<open>x || 0\<close> on an optional number: missing, \<^verbatim>\<open>null\<close> and \<open>0\<close> all give \<open>0\<close>.\<close>

definition or0 :: "int js \<Rightarrow> int" where
  "or0 x = (case x of Val n \<Rightarrow> n | _ \<Rightarrow> 0)"

definition key_order :: "string list \<Rightarrow> string list \<Rightarrow> string list" where
  "key_order names keys =
     filter (\<lambda>k. k \<in> set names) (remdups keys) @ filter (\<lambda>k. k \<notin> set keys) names"

text \<open>\<^verbatim>\<open>String(n)\<close> and \<^verbatim>\<open>%d\<close> of \<^verbatim>\<open>util.format\<close> on an integer: its decimal digits.\<close>

fun string_of_nat :: "nat \<Rightarrow> string" where
  "string_of_nat n =
     (if n < 10 then [''0123456789'' ! n]
      else string_of_nat (n div 10) @ [''0123456789'' ! (n mod 10)])"

definition String :: "int \<Rightarrow> string" where
  "String i = (if i < 0 then ''-'' @ string_of_nat (nat (- i)) else string_of_nat (nat i))"

text \<open>\<^verbatim>\<open>%s\<close> of \<^verbatim>\<open>util.format\<close> on an optional string.\<close>

definition format_s :: "string js \<Rightarrow> string" where
  "format_s x = (case x of Val s \<Rightarrow> s | Null \<Rightarrow> ''null'' | Undefined \<Rightarrow> ''undefined'')"

text \<open>
  \<^verbatim>\<open>Array(n).join(c)\<close>: an array of \<open>n\<close> holes joined by \<open>c\<close> is \<open>n - 1\<close> copies of
  \<open>c\<close> (none for \<open>n = 0\<close>); a negative length throws \<^verbatim>\<open>RangeError\<close>.
\<close>

definition Array_join :: "int \<Rightarrow> char \<Rightarrow> js_error + string" where
  "Array_join n c = (if n < 0 then Inl RangeError else Inr (replicate (nat n - 1) c))"

text \<open>\<^verbatim>\<open>s.slice(-k)\<close>: the last \<open>k\<close> characters of \<open>s\<close>.\<close>

definition slice_last :: "nat \<Rightarrow> string \<Rightarrow> string" where
  "slice_last k s = drop (length s - k) s"

text \<open>\<^verbatim>\<open>xs.join(sep)\<close> on an array of strings.\<close>

fun join :: "string \<Rightarrow> string list \<Rightarrow> string" where
  "join sep [] = []"
| "join sep [x] = x"
| "join sep (x # y # ys) = x @ sep @ join sep (y # ys)"

section \<open>The data model (the Flow types of the source)\<close>

text \<open>
  The fields \<^verbatim>\<open>type\<close>, \<^verbatim>\<open>context\<close> and \<^verbatim>\<open>end\<close> are reserved words here; they are
  named \<open>msg_type\<close> and \<open>loc_type\<close>, \<open>msg_context\<close>, and \<open>loc_end\<close>.
\<close>

record FlowPos =
  line :: int
  column :: int
  offset :: int
  pos_keys :: "string list"

datatype FlowLocType = LibFile | SourceFile | JsonFile | Builtin

record FlowLoc =
  source :: "string js"
  loc_type :: "FlowLocType js"
  start :: FlowPos
  loc_end :: FlowPos
  loc_keys :: "string list"

datatype FlowMessageType = Blame | Comment

record FlowMessage =
  descr :: string
  msg_type :: FlowMessageType
  msg_context :: "string js"
  loc :: "FlowLoc js"
  indent :: "int js"
  msg_keys :: "string list"

text \<open>The property names of the three object types, in the order of their declarations.\<close>

definition pos_names :: "string list" where
  "pos_names = [''line'', ''column'', ''offset'']"

definition loc_names :: "string list" where
  "loc_names = [''source'', ''type'', ''start'', ''end'']"

definition msg_names :: "string list" where
  "msg_names = [''descr'', ''type'', ''context'', ''loc'', ''indent'']"

text \<open>
  The properties that an object has. A position has all three. A location always has
  \<^verbatim>\<open>start\<close> and \<^verbatim>\<open>end\<close>, a message \<^verbatim>\<open>descr\<close> and \<^verbatim>\<open>type\<close>; the other properties may
  be missing.
\<close>

definition loc_has :: "FlowLoc \<Rightarrow> string \<Rightarrow> bool" where
  "loc_has l k =
     (k = ''start'' \<or> k = ''end'' \<or> (k = ''source'' \<and> source l \<noteq> Undefined) \<or>
      (k = ''type'' \<and> loc_type l \<noteq> Undefined))"

definition msg_has :: "FlowMessage \<Rightarrow> string \<Rightarrow> bool" where
  "msg_has m k =
     (k = ''descr'' \<or> k = ''type'' \<or> (k = ''context'' \<and> msg_context m \<noteq> Undefined) \<or>
      (k = ''loc'' \<and> loc m \<noteq> Undefined) \<or> (k = ''indent'' \<and> indent m \<noteq> Undefined))"

section \<open>Rendering one message: \<^verbatim>\<open>prettyPrintMessage\<close>\<close>

text \<open>\<^verbatim>\<open>.replace(/[^\t ]/g, " ")\<close>: every character but tab and space becomes a space.\<close>

definition blank :: "char \<Rightarrow> char" where
  "blank ch = (if ch = CHR 0x09 \<or> ch = CHR '' '' then ch else CHR '' '')"

definition prettyPrintMessage :: "string \<Rightarrow> FlowMessage \<Rightarrow> js_error + string" where
  "prettyPrintMessage mainFile m =
     bind (Array_join (or0 (indent m) + 1) CHR '' '') (\<lambda>indentation.
       case loc m of
         Val l \<Rightarrow>
           let startCol = column (start l) - 1 in
           bind (case msg_context m of
                   Val c \<Rightarrow>
                     let lineStr = String (line (start l));
                         lineStr = (if length lineStr < 3
                                    then slice_last 3 (''   '' @ lineStr) else lineStr);
                         lineStr = lineStr @ '': '' in
                     bind (Array_join (int (length lineStr) + 1) CHR '' '') (\<lambda>padding.
                       let padding = (if int (length c) > startCol
                                      then padding @ map blank (take (nat startCol) c)
                                      else padding);
                           underline_size = (if line (start l) = line (loc_end l)
                                             then max 1 (column (loc_end l) - startCol)
                                             else 1) in
                       bind (Array_join (underline_size + 1) CHR ''^'') (\<lambda>underline.
                         Inr (indentation @ lineStr @ c @ ''\<newline>'' @
                              indentation @ padding @ underline @ '' '')))
                 | _ \<Rightarrow> Inr indentation) (\<lambda>contextStr.
             let see_another_file =
                   (if source l = Val mainFile then ''''
                    else ''. See: '' @ format_s (source l) @ '':'' @ String (line (start l)))
             in Inr (contextStr @ descr m @ see_another_file))
       | _ \<Rightarrow> Inr (indentation @ descr m))"

text \<open>
  The values of the local variables \<^verbatim>\<open>indentation\<close> (line 193, when it does not throw),
  \<^verbatim>\<open>lineStr\<close> (lines 198 to 202) and \<^verbatim>\<open>see_another_file\<close> (lines 221 to 223), named
  so that the theorems about \<open>prettyPrintMessage\<close> can speak of them.
\<close>

definition indentation_of :: "FlowMessage \<Rightarrow> string" where
  "indentation_of m = replicate (nat (or0 (indent m))) CHR '' ''"

definition lineStr_of :: "FlowLoc \<Rightarrow> string" where
  "lineStr_of l =
     (let lineStr = String (line (start l)) in
      (if length lineStr < 3 then slice_last 3 (''   '' @ lineStr) else lineStr) @ '': '')"

definition see_another_file_of :: "string \<Rightarrow> FlowLoc \<Rightarrow> string" where
  "see_another_file_of mainFile l =
     (if source l = Val mainFile then ''''
      else ''. See: '' @ format_s (source l) @ '':'' @ String (line (start l)))"

section \<open>Reports, and the store of message objects\<close>

text \<open>
  The source updates message objects in place (\<^verbatim>\<open>message.indent = ...\<close> in
  \<^verbatim>\<open>getExtraMessages\<close>, \<^verbatim>\<open>prev.descr = ...\<close> in \<^verbatim>\<open>prettyPrintError\<close>), and what a caller
  sees afterwards depends on which objects are shared. Message objects therefore live in
  a store: a list of message records, a reference being an index into it. Allocation
  appends. Errors and reports hold references; nothing in the source writes to a report,
  an error, a location, a position or an input array, so these are plain values. The
  type parameter \<open>'m\<close> is \<open>ref\<close> for a report in the store and \<open>FlowMessage\<close> for the
  report read out of the store.
\<close>

datatype 'm FlowExtraNode =
  FlowExtraNode (extra_message: "'m list") (children: "'m FlowExtraNode list js")

record 'm FlowError =
  kind :: string
  level :: string
  message :: "'m list"
  trace :: "'m list js"
  operation :: "'m js"
  extra :: "'m FlowExtraNode list js"

record 'm FlowResult =
  passed :: bool
  errors :: "'m FlowError list"
  flowVersion :: string

type_synonym ref = nat

type_synonym heap = "FlowMessage list"

definition alloc :: "heap \<Rightarrow> FlowMessage \<Rightarrow> heap \<times> ref" where
  "alloc h m = (h @ [m], length h)"

section \<open>The planner: the functions that build the message sequence\<close>

text \<open>\<^verbatim>\<open>{ descr, type: "Comment" }\<close>: the properties are created in the order written.\<close>

definition mkComment :: "string \<Rightarrow> FlowMessage" where
  "mkComment d =
     \<lparr>descr = d, msg_type = Comment, msg_context = Undefined, loc = Undefined,
      indent = Undefined, msg_keys = [''descr'', ''type'']\<rparr>"

definition getHeader :: "heap \<Rightarrow> FlowLoc js \<Rightarrow> heap \<times> ref list" where
  "getHeader h mainLoc =
     (let (line', filename) =
            (case mainLoc of
               Val l \<Rightarrow> (line (start l), case source l of Val s \<Rightarrow> s | _ \<Rightarrow> ''[No file]'')
             | _ \<Rightarrow> (- 1, ''[No file]''));
          (h', r) = alloc h (mkComment (filename @ '':'' @ String line'))
      in (h', [r]))"

definition getKindMessage :: "heap \<Rightarrow> string \<Rightarrow> string \<Rightarrow> ref list \<Rightarrow> heap \<times> ref list" where
  "getKindMessage h kind' level' message' =
     (case message' of
        r0 # _ \<Rightarrow>
          let context' = msg_context (h ! r0);
              loc' = loc (h ! r0);
              descr' =
                (if kind' = ''internal'' \<and> level' = ''error''
                 then Some ''Internal error (see logs): ''
                 else if (case loc' of Val l \<Rightarrow> loc_type l = Val LibFile | _ \<Rightarrow> False)
                 then (if kind' = ''parse'' \<and> level' = ''error''
                       then Some ''Library parse error:''
                       else if kind' = ''infer'' then Some ''Library type error:''
                       else None)
                 else None)
          in (case descr' of
                Some d \<Rightarrow>
                  let (h', r) = alloc h \<lparr>descr = d, msg_type = Blame,
                                          msg_context = context', loc = loc',
                                          indent = Undefined,
                                          msg_keys = [''context'', ''loc'', ''descr'',
                                                      ''type'']\<rparr>
                  in (h', [r])
              | None \<Rightarrow> (h, []))
      | [] \<Rightarrow> (h, []))"

definition getOpReason :: "heap \<Rightarrow> ref js \<Rightarrow> heap \<times> ref list" where
  "getOpReason h op =
     (case op of
        Val r \<Rightarrow> (let (h', c) = alloc h (mkComment ''Error:'') in (h', [r, c]))
      | _ \<Rightarrow> (h, []))"

text \<open>
  \<^verbatim>\<open>messages.forEach(message => message.indent = (message.indent || 0)+2)\<close>: one write
  per element, in order (an object that occurs twice is written twice). An assignment
  to a property that the object has leaves the order of its properties as it is; an
  assignment to a missing property creates it, after the properties that the object
  has.
\<close>

definition add_indent :: "heap \<Rightarrow> ref \<Rightarrow> heap" where
  "add_indent h r =
     h[r := (h ! r)\<lparr>indent := Val (or0 (indent (h ! r)) + 2),
                     msg_keys :=
                       (if indent (h ! r) = Undefined
                        then filter (msg_has (h ! r))
                               (key_order msg_names (msg_keys (h ! r))) @ [''indent'']
                        else msg_keys (h ! r))\<rparr>]"

text \<open>
  \<open>getExtraMessages\<close> with the callback of its \<^verbatim>\<open>extra.reduce\<close> (\<open>extra_reduce\<close>, the
  accumulator \<open>acc\<close> explicit). The children of a node are flattened, and their indents
  raised, by the inner call before the outer call raises every indent of its own result.
\<close>

function getExtraMessages :: "heap \<Rightarrow> ref FlowExtraNode list js \<Rightarrow> heap \<times> ref list"
  and extra_reduce :: "heap \<Rightarrow> ref list \<Rightarrow> ref FlowExtraNode list \<Rightarrow> heap \<times> ref list"
where
  "getExtraMessages h (Val ex) =
     (case extra_reduce h [] ex of (h', messages) \<Rightarrow> (foldl add_indent h' messages, messages))"
| "getExtraMessages h Undefined = (h, [])"
| "getExtraMessages h Null = (h, [])"
| "extra_reduce h acc [] = (h, acc)"
| "extra_reduce h acc (FlowExtraNode ms ch # rest) =
     (case getExtraMessages h ch of
        (h', childrenMessages) \<Rightarrow> extra_reduce h' (acc @ ms @ childrenMessages) rest)"
  by pat_completeness auto
termination
  by (relation "measure (\<lambda>x. case x of
          Inl (h, ex) \<Rightarrow> size_js (size_list size) ex
        | Inr (h, acc, ns) \<Rightarrow> size_list size ns)") auto

definition getTraceReasons :: "heap \<Rightarrow> ref list js \<Rightarrow> heap \<times> ref list" where
  "getTraceReasons h trace' =
     (case trace' of
        Val t \<Rightarrow>
          if length t > 0
          then (let (h', r) = alloc h \<lparr>descr = ''Trace:'', msg_type = Blame,
                                        msg_context = Undefined, loc = Undefined,
                                        indent = Undefined,
                                        msg_keys = [''descr'', ''type'']\<rparr>
                in (h', r # t))
          else (h, [])
      | _ \<Rightarrow> (h, []))"

section \<open>\<^verbatim>\<open>prettyPrintError\<close>\<close>

text \<open>
  Line 90, \<^verbatim>\<open>operation && operation.loc || message[0].loc\<close>: the location of the
  operation when there is an operation and it has one, else the \<^verbatim>\<open>loc\<close> property of
  \<^verbatim>\<open>message[0]\<close>; reading that property of a missing \<^verbatim>\<open>message[0]\<close> throws
  \<^verbatim>\<open>TypeError\<close>.
\<close>

definition mainLoc_of :: "heap \<Rightarrow> ref FlowError \<Rightarrow> js_error + FlowLoc js" where
  "mainLoc_of h error =
     (case (case operation error of Val r \<Rightarrow> loc (h ! r) | _ \<Rightarrow> Undefined) of
        Val l \<Rightarrow> Inr (Val l)
      | _ \<Rightarrow> (case message error of r0 # _ \<Rightarrow> Inr (loc (h ! r0)) | [] \<Rightarrow> Inl TypeError))"

text \<open>
  Line 99, \<^verbatim>\<open>mainLoc && mainLoc.source || "[No file]"\<close>: the empty string is falsy too.
\<close>

definition mainFile_of :: "FlowLoc js \<Rightarrow> string" where
  "mainFile_of mainLoc =
     (case mainLoc of
        Val l \<Rightarrow> (case source l of Val s \<Rightarrow> if s = '''' then ''[No file]'' else s
                               | _ \<Rightarrow> ''[No file]'')
      | _ \<Rightarrow> ''[No file]'')"

text \<open>Lines 91 to 98: the arguments of \<^verbatim>\<open>[].concat(...)\<close>, evaluated left to right.\<close>

definition planned_messages :: "heap \<Rightarrow> ref FlowError \<Rightarrow> FlowLoc js \<Rightarrow> heap \<times> ref list" where
  "planned_messages h error mainLoc =
     (let (h1, header) = getHeader h mainLoc;
          (h2, kindMessage) = getKindMessage h1 (kind error) (level error) (message error);
          (h3, opReason) = getOpReason h2 (operation error);
          (h4, extraMessages) = getExtraMessages h3 (extra error);
          (h5, traceReasons) = getTraceReasons h4 (trace error)
      in (h5, header @ kindMessage @ opReason @ message error @ extraMessages @ traceReasons))"

text \<open>
  Lines 101 to 110: the callback of \<^verbatim>\<open>messages.reduce\<close> and the fold. \<open>acc\<close> is a new
  array of references; \<^verbatim>\<open>prev.descr = ...\<close> writes to the object that \<open>acc\<close> ends with.
\<close>

definition merge_step :: "heap \<times> ref list \<Rightarrow> ref \<Rightarrow> heap \<times> ref list" where
  "merge_step s r =
     (let (h, acc) = s; m = h ! r in
      if (case loc m of Val _ \<Rightarrow> True | _ \<Rightarrow> False) \<or> length acc = 0 \<or> msg_type m = Blame
      then (h, acc @ [r])
      else if descr m \<noteq> ''Error:''
      then (let prev = acc ! (length acc - 1) in
            (h[prev := (h ! prev)\<lparr>descr :=
                 (if descr (h ! prev) = '''' then descr m
                  else descr (h ! prev) @ ''. '' @ descr m)\<rparr>], acc))
      else (h, acc))"

definition merge_messages :: "heap \<Rightarrow> ref list \<Rightarrow> heap \<times> ref list" where
  "merge_messages h messages = foldl merge_step (h, []) messages"

text \<open>\<^verbatim>\<open>xs.map(f)\<close> for an \<open>f\<close> that may throw: the first exception ends the map.\<close>

fun map_throwing :: "('a \<Rightarrow> js_error + 'b) \<Rightarrow> 'a list \<Rightarrow> js_error + 'b list" where
  "map_throwing f [] = Inr []"
| "map_throwing f (x # xs) =
     bind (f x) (\<lambda>y. bind (map_throwing f xs) (\<lambda>ys. Inr (y # ys)))"

text \<open>The variable \<^verbatim>\<open>messages\<close> after line 110: the planned sequence, merged.\<close>

definition merged_messages :: "heap \<Rightarrow> ref FlowError \<Rightarrow> FlowLoc js \<Rightarrow> heap \<times> ref list" where
  "merged_messages h error mainLoc =
     (let (h', messages) = planned_messages h error mainLoc in merge_messages h' messages)"

text \<open>
  The result is the store after the call, and the string returned or the exception
  thrown.
\<close>

definition prettyPrintError :: "heap \<Rightarrow> ref FlowError \<Rightarrow> heap \<times> (js_error + string)" where
  "prettyPrintError h error =
     (case mainLoc_of h error of
        Inl e \<Rightarrow> (h, Inl e)
      | Inr mainLoc \<Rightarrow>
          let (h', messages) = merged_messages h error mainLoc;
              mainFile = mainFile_of mainLoc
          in (h', bind (map_throwing (\<lambda>r. prettyPrintMessage mainFile (h' ! r)) messages)
                    (\<lambda>lines. Inr (join ''\<newline>'' lines))))"

section \<open>\<^verbatim>\<open>JSON.parse(JSON.stringify(x))\<close>\<close>

text \<open>
  \<^verbatim>\<open>JSON.stringify\<close> reads the objects reachable from its argument and writes them out
  as a tree; \<^verbatim>\<open>JSON.parse\<close> builds that tree again from new objects. In the model the
  first is reading every reference out of the store (\<open>read_error\<close>, \<open>read_result\<close>: the
  report with messages in place of references), the second is allocating every message
  of such a report (\<open>store_error\<close>, \<open>store_result\<close>). Integers, strings, \<^verbatim>\<open>null\<close> and
  missing properties all survive the round trip, and so does the order of the
  properties of an object (\<^verbatim>\<open>JSON.stringify\<close> writes them in their order, and
  \<^verbatim>\<open>JSON.parse\<close> creates them in the order of the text), so the values are copied as
  they are. The order in which the new objects are allocated is that of the type
  declarations; no operation of the source observes it.
\<close>

definition read_error :: "heap \<Rightarrow> ref FlowError \<Rightarrow> FlowMessage FlowError" where
  "read_error h e =
     \<lparr>kind = kind e, level = level e,
      message = map (nth h) (message e),
      trace = map_js (map (nth h)) (trace e),
      operation = map_js (nth h) (operation e),
      extra = map_js (map (map_FlowExtraNode (nth h))) (extra e)\<rparr>"

definition read_result :: "heap \<Rightarrow> ref FlowResult \<Rightarrow> FlowMessage FlowResult" where
  "read_result h r =
     \<lparr>passed = passed r, errors = map (read_error h) (errors r),
      flowVersion = flowVersion r\<rparr>"

fun store_list :: "heap \<Rightarrow> FlowMessage list \<Rightarrow> heap \<times> ref list" where
  "store_list h [] = (h, [])"
| "store_list h (m # ms) =
     (let (h1, r) = alloc h m; (h2, rs) = store_list h1 ms in (h2, r # rs))"

definition store_js :: "(heap \<Rightarrow> 'a \<Rightarrow> heap \<times> 'b) \<Rightarrow> heap \<Rightarrow> 'a js \<Rightarrow> heap \<times> 'b js" where
  "store_js f h x =
     (case x of
        Val v \<Rightarrow> (let (h', v') = f h v in (h', Val v'))
      | Null \<Rightarrow> (h, Null)
      | Undefined \<Rightarrow> (h, Undefined))"

function store_extra :: "heap \<Rightarrow> FlowMessage FlowExtraNode list js \<Rightarrow>
      heap \<times> ref FlowExtraNode list js"
  and store_nodes :: "heap \<Rightarrow> FlowMessage FlowExtraNode list \<Rightarrow>
      heap \<times> ref FlowExtraNode list"
where
  "store_extra h (Val ns) = (case store_nodes h ns of (h', ns') \<Rightarrow> (h', Val ns'))"
| "store_extra h Null = (h, Null)"
| "store_extra h Undefined = (h, Undefined)"
| "store_nodes h [] = (h, [])"
| "store_nodes h (FlowExtraNode ms ch # rest) =
     (case store_list h ms of (h1, ms') \<Rightarrow>
      case store_extra h1 ch of (h2, ch') \<Rightarrow>
      case store_nodes h2 rest of (h3, rest') \<Rightarrow> (h3, FlowExtraNode ms' ch' # rest'))"
  by pat_completeness auto
termination
  by (relation "measure (\<lambda>x. case x of
          Inl (h, ex) \<Rightarrow> size_js (size_list size) ex
        | Inr (h, ns) \<Rightarrow> size_list size ns)") auto

definition store_error :: "heap \<Rightarrow> FlowMessage FlowError \<Rightarrow> heap \<times> ref FlowError" where
  "store_error h e =
     (let (h1, message') = store_list h (message e);
          (h2, trace') = store_js store_list h1 (trace e);
          (h3, operation') = store_js alloc h2 (operation e);
          (h4, extra') = store_extra h3 (extra e)
      in (h4, \<lparr>kind = kind e, level = level e, message = message', trace = trace',
               operation = operation', extra = extra'\<rparr>))"

fun store_errors :: "heap \<Rightarrow> FlowMessage FlowError list \<Rightarrow> heap \<times> ref FlowError list" where
  "store_errors h [] = (h, [])"
| "store_errors h (e # es) =
     (let (h1, e') = store_error h e; (h2, es') = store_errors h1 es in (h2, e' # es'))"

definition store_result :: "heap \<Rightarrow> FlowMessage FlowResult \<Rightarrow> heap \<times> ref FlowResult" where
  "store_result h r =
     (let (h', errors') = store_errors h (errors r)
      in (h', \<lparr>passed = passed r, errors = errors', flowVersion = flowVersion r\<rparr>))"

section \<open>\<^verbatim>\<open>prettyPrint\<close> and \<^verbatim>\<open>prettyPrintWithHeader\<close>\<close>

text \<open>\<^verbatim>\<open>result.errors.map(prettyPrintError)\<close>: the store is threaded through the calls.\<close>

fun map_prettyPrintError :: "heap \<Rightarrow> ref FlowError list \<Rightarrow> heap \<times> (js_error + string list)" where
  "map_prettyPrintError h [] = (h, Inr [])"
| "map_prettyPrintError h (e # es) =
     (case prettyPrintError h e of
        (h1, Inl x) \<Rightarrow> (h1, Inl x)
      | (h1, Inr s) \<Rightarrow>
          (case map_prettyPrintError h1 es of
             (h2, Inl x) \<Rightarrow> (h2, Inl x)
           | (h2, Inr ss) \<Rightarrow> (h2, Inr (s # ss))))"

definition prettyPrint :: "heap \<Rightarrow> ref FlowResult \<Rightarrow> heap \<times> (js_error + string)" where
  "prettyPrint h result =
     (let (h1, result') = store_result h (read_result h result);
          (h2, strs) = map_prettyPrintError h1 (errors result')
      in (h2, bind strs (\<lambda>ss. Inr (join ''\<newline>\<newline>'' ss))))"

definition prettyPrintWithHeader :: "heap \<Rightarrow> ref FlowResult \<Rightarrow> heap \<times> (js_error + string)" where
  "prettyPrintWithHeader h result =
     (if passed result then (h, Inr ''No errors'')
      else (let (h', body) = prettyPrint h result
            in (h', bind body (\<lambda>s.
                  Inr (String (int (length (errors result))) @ '' error'' @
                       (if length (errors result) = 1 then '''' else ''s'') @
                       ''\<newline>'' @ s)))))"

section \<open>\<^verbatim>\<open>JSON.stringify\<close> of a message array, and \<^verbatim>\<open>difference\<close>\<close>

text \<open>
  The text \<^verbatim>\<open>JSON.stringify\<close> produces (no indentation argument): a string in double
  quotes with \<^verbatim>\<open>"\<close>, \<^verbatim>\<open>\\<close> and the control characters escaped, an integer in decimal,
  an object as its members between braces, a missing member left out and a \<^verbatim>\<open>null\<close>
  one written \<^verbatim>\<open>null\<close>, an array as its elements between brackets. The members of an
  object are written in the order of its properties (\<open>key_order\<close> of its list of names).
  \<open>pos_member\<close>, \<open>loc_member\<close> and \<open>msg_member\<close> give the text of the value of a
  property by its name in the source.
\<close>

definition hex4 :: "nat \<Rightarrow> string" where
  "hex4 n = map (\<lambda>k. ''0123456789abcdef'' ! ((n div 16 ^ k) mod 16)) [3, 2, 1, 0]"

definition json_escape :: "char \<Rightarrow> string" where
  "json_escape c =
     (if c = CHR ''\"'' then [CHR 0x5C, CHR ''\"'']
      else if c = CHR 0x5C then [CHR 0x5C, CHR 0x5C]
      else if c = CHR 0x08 then [CHR 0x5C, CHR ''b'']
      else if c = CHR 0x0C then [CHR 0x5C, CHR ''f'']
      else if c = CHR 0x0A then [CHR 0x5C, CHR ''n'']
      else if c = CHR 0x0D then [CHR 0x5C, CHR ''r'']
      else if c = CHR 0x09 then [CHR 0x5C, CHR ''t'']
      else if (of_char c :: nat) < 32 then [CHR 0x5C, CHR ''u''] @ hex4 (of_char c)
      else [c])"

definition json_string :: "string \<Rightarrow> string" where
  "json_string s = [CHR ''\"''] @ concat (map json_escape s) @ [CHR ''\"'']"

definition json_member :: "string \<Rightarrow> string js \<Rightarrow> string list" where
  "json_member k v =
     (case v of
        Val x \<Rightarrow> [json_string k @ '':'' @ x]
      | Null \<Rightarrow> [json_string k @ '':null'']
      | Undefined \<Rightarrow> [])"

definition json_object :: "string list list \<Rightarrow> string" where
  "json_object members = ''{'' @ join '','' (concat members) @ ''}''"

definition json_array :: "string list \<Rightarrow> string" where
  "json_array elements = ''['' @ join '','' elements @ '']''"

definition pos_member :: "FlowPos \<Rightarrow> string \<Rightarrow> string js" where
  "pos_member p k =
     (if k = ''line'' then Val (String (line p))
      else if k = ''column'' then Val (String (column p))
      else if k = ''offset'' then Val (String (offset p))
      else Undefined)"

definition stringify_pos :: "FlowPos \<Rightarrow> string" where
  "stringify_pos p =
     json_object (map (\<lambda>k. json_member k (pos_member p k))
                    (key_order pos_names (pos_keys p)))"

definition stringify_loc_type :: "FlowLocType \<Rightarrow> string" where
  "stringify_loc_type t =
     json_string (case t of LibFile \<Rightarrow> ''LibFile'' | SourceFile \<Rightarrow> ''SourceFile''
                          | JsonFile \<Rightarrow> ''JsonFile'' | Builtin \<Rightarrow> ''Builtin'')"

definition loc_member :: "FlowLoc \<Rightarrow> string \<Rightarrow> string js" where
  "loc_member l k =
     (if k = ''source'' then map_js json_string (source l)
      else if k = ''type'' then map_js stringify_loc_type (loc_type l)
      else if k = ''start'' then Val (stringify_pos (start l))
      else if k = ''end'' then Val (stringify_pos (loc_end l))
      else Undefined)"

definition stringify_loc :: "FlowLoc \<Rightarrow> string" where
  "stringify_loc l =
     json_object (map (\<lambda>k. json_member k (loc_member l k))
                    (key_order loc_names (loc_keys l)))"

definition stringify_message_type :: "FlowMessageType \<Rightarrow> string" where
  "stringify_message_type t =
     json_string (case t of Blame \<Rightarrow> ''Blame'' | Comment \<Rightarrow> ''Comment'')"

definition msg_member :: "FlowMessage \<Rightarrow> string \<Rightarrow> string js" where
  "msg_member m k =
     (if k = ''descr'' then Val (json_string (descr m))
      else if k = ''type'' then Val (stringify_message_type (msg_type m))
      else if k = ''context'' then map_js json_string (msg_context m)
      else if k = ''loc'' then map_js stringify_loc (loc m)
      else if k = ''indent'' then map_js String (indent m)
      else Undefined)"

definition stringify_message :: "FlowMessage \<Rightarrow> string" where
  "stringify_message m =
     json_object (map (\<lambda>k. json_member k (msg_member m k))
                    (key_order msg_names (msg_keys m)))"

definition stringify_messages :: "FlowMessage list \<Rightarrow> string" where
  "stringify_messages ms = json_array (map stringify_message ms)"

text \<open>
  What the text of an object tells of it: the values of its properties, and the order
  of the properties that are written (a missing property is not). \<open>written_message\<close>
  is the message with the list of its written properties for its list of names, and
  the same for the location and the positions in it. Two message arrays have the same
  text exactly when their messages agree in this (lemma \<open>stringify_messages_eq_iff\<close>
  below).
\<close>

text \<open>
  For the proofs about the text: the members of an object each after a comma (the text
  of an object with a member is this text without its first comma, between braces),
  and the texts that begin with a comma or a closing brace, which is how the text goes
  on after a member.
\<close>

definition members_text :: "(string \<Rightarrow> string js) \<Rightarrow> string list \<Rightarrow> string" where
  "members_text f ks = concat (map (\<lambda>k. concat (map ((#) CHR '','') (json_member k (f k)))) ks)"

definition delimited :: "string \<Rightarrow> bool" where
  "delimited u = (case u of [] \<Rightarrow> False | c # _ \<Rightarrow> c = CHR '','' \<or> c = CHR ''}'')"

definition written_pos :: "FlowPos \<Rightarrow> FlowPos" where
  "written_pos p = p\<lparr>pos_keys := key_order pos_names (pos_keys p)\<rparr>"

definition written_loc :: "FlowLoc \<Rightarrow> FlowLoc" where
  "written_loc l =
     l\<lparr>start := written_pos (start l), loc_end := written_pos (loc_end l),
       loc_keys := filter (loc_has l) (key_order loc_names (loc_keys l))\<rparr>"

definition written_message :: "FlowMessage \<Rightarrow> FlowMessage" where
  "written_message m =
     m\<lparr>loc := map_js written_loc (loc m),
       msg_keys := filter (msg_has m) (key_order msg_names (msg_keys m))\<rparr>"

text \<open>
  \<^verbatim>\<open>oldHashes\<close> is an ordinary object: \<^verbatim>\<open>oldHashes[hash]\<close> finds own properties and
  those inherited from \<^verbatim>\<open>Object.prototype\<close>. An assignment to the key \<^verbatim>\<open>__proto__\<close>
  would not create an own property; the keys assigned here are serialized arrays, which
  start with a bracket (lemma \<open>stringify_messages_bracket\<close> below), so the assignment
  is modelled as a map update.
\<close>

definition Object_prototype_names :: "string list" where
  "Object_prototype_names =
     [''constructor'', ''__defineGetter__'', ''__defineSetter__'', ''hasOwnProperty'',
      ''__lookupGetter__'', ''__lookupSetter__'', ''isPrototypeOf'',
      ''propertyIsEnumerable'', ''toString'', ''valueOf'', ''__proto__'',
      ''toLocaleString'']"

definition not_undefined :: "(string \<rightharpoonup> 'a) \<Rightarrow> string \<Rightarrow> bool" where
  "not_undefined obj k = (obj k \<noteq> None \<or> k \<in> set Object_prototype_names)"

text \<open>
  The variable \<^verbatim>\<open>hash\<close> of lines 52 and 56, \<^verbatim>\<open>JSON.stringify(error.message)\<close>: the
  messages are read out of the store as it is at that point.
\<close>

definition hash_of :: "heap \<Rightarrow> ref FlowError \<Rightarrow> string" where
  "hash_of h error = stringify_messages (map (nth h) (message error))"

text \<open>Lines 51 to 54 and lines 55 to 61: the two loops of \<^verbatim>\<open>difference\<close>.\<close>

definition oldHashes_of :: "heap \<Rightarrow> ref FlowError list \<Rightarrow> (string \<rightharpoonup> ref FlowError)" where
  "oldHashes_of h es =
     foldl (\<lambda>oldHashes error. oldHashes(hash_of h error \<mapsto> error)) Map.empty es"

definition difference_step ::
  "(string \<rightharpoonup> ref FlowError) \<Rightarrow> heap \<times> ref FlowError list \<Rightarrow> ref FlowError \<Rightarrow>
     heap \<times> ref FlowError list" where
  "difference_step oldHashes s error =
     (let (h, errors') = s;
          hash = hash_of h error
      in if not_undefined oldHashes hash then (h, errors')
         else (let (h', copy) = store_error h (read_error h error)
               in (h', errors' @ [copy])))"

definition difference :: "heap \<Rightarrow> ref FlowResult \<Rightarrow> ref FlowResult \<Rightarrow> heap \<times> ref FlowResult" where
  "difference h a b =
     (let oldHashes = oldHashes_of h (errors b);
          (h', errors') = foldl (difference_step oldHashes) (h, []) (errors a)
      in (h', \<lparr>passed = (length errors' = 0), errors = errors',
               flowVersion = flowVersion a\<rparr>))"

section \<open>The merge pass in the words of the specification\<close>

text \<open>
  The specification describes the merge pass as a fold over the units themselves, with an
  output sequence of units: a unit with a location, or arriving at an empty output, or of
  type \<open>Blame\<close> is appended; another unit whose text is not \<^verbatim>\<open>Error:\<close> has its text
  joined to the text of the last output unit; a unit \<^verbatim>\<open>Error:\<close> is dropped. This is
  that fold, to be compared with \<open>merge_messages\<close>, which works on references.
\<close>

definition merge_unit_spec :: "FlowMessage list \<Rightarrow> FlowMessage \<Rightarrow> FlowMessage list" where
  "merge_unit_spec out m =
     (if loc m \<noteq> Undefined \<and> loc m \<noteq> Null \<or> out = [] \<or> msg_type m = Blame
      then out @ [m]
      else if descr m \<noteq> ''Error:''
      then butlast out @
           [(last out)\<lparr>descr := (if descr (last out) = '''' then descr m
                                     else descr (last out) @ ''. '' @ descr m)\<rparr>]
      else out)"

definition merge_pass_spec :: "FlowMessage list \<Rightarrow> FlowMessage list" where
  "merge_pass_spec ms = foldl merge_unit_spec [] ms"

section \<open>The references of a report\<close>

text \<open>
  The references an error holds, in the order message, trace, operation, extra (a node's
  own messages before those of its children), and those of a report.
\<close>

definition js_list :: "'a list js \<Rightarrow> 'a list" where
  "js_list x = (case x of Val xs \<Rightarrow> xs | _ \<Rightarrow> [])"

fun node_refs :: "'m FlowExtraNode \<Rightarrow> 'm list" where
  "node_refs (FlowExtraNode ms ch) =
     ms @ (case ch of Val ns \<Rightarrow> concat (map node_refs ns) | _ \<Rightarrow> [])"

definition error_refs :: "'m FlowError \<Rightarrow> 'm list" where
  "error_refs e =
     message e @ js_list (trace e) @ js_list (map_js (\<lambda>r. [r]) (operation e)) @
     concat (map node_refs (js_list (extra e)))"

definition result_refs :: "'m FlowResult \<Rightarrow> 'm list" where
  "result_refs r = concat (map error_refs (errors r))"

text \<open>
  \<open>unchanged n h h'\<close>: the store \<open>h'\<close> is at least as long as \<open>h\<close> and holds the same
  objects at the first \<open>n\<close> addresses.
\<close>

definition unchanged :: "nat \<Rightarrow> heap \<Rightarrow> heap \<Rightarrow> bool" where
  "unchanged n h h' = (length h \<le> length h' \<and> take n h' = take n h)"


section \<open>Example inputs\<close>

text \<open>
  The example of the specification: one error whose only message is the blame
  \<^verbatim>\<open>"Cannot call function"\<close> on \<^verbatim>\<open>foo();\<close>, line 3 of \<^verbatim>\<open>a.js\<close>, columns 1 to 4.
\<close>

definition ex_call_message :: FlowMessage where
  "ex_call_message =
     \<lparr>descr = ''Cannot call function'', msg_type = Blame, msg_context = Val ''foo();'',
      loc = Val \<lparr>source = Val ''a.js'', loc_type = Undefined,
                 start = \<lparr>line = 3, column = 1, offset = 0, pos_keys = pos_names\<rparr>,
                 loc_end = \<lparr>line = 3, column = 4, offset = 3, pos_keys = pos_names\<rparr>,
      loc_keys = loc_names\<rparr>,
      indent = Undefined,
      msg_keys = msg_names\<rparr>"

definition ex_call_error :: "ref FlowError" where
  "ex_call_error =
     \<lparr>kind = ''infer'', level = ''error'', message = [0], trace = Undefined,
      operation = Undefined, extra = Undefined\<rparr>"

definition ex_call_result :: "ref FlowResult" where
  "ex_call_result = \<lparr>passed = False, errors = [ex_call_error], flowVersion = ''0.30.0''\<rparr>"

text \<open>
  A message whose location ends before it starts (column 7 to column 2 of line 1), and
  one whose start column is just past the end of its two-character context line.
\<close>

definition ex_backwards_message :: FlowMessage where
  "ex_backwards_message =
     \<lparr>descr = ''x'', msg_type = Blame, msg_context = Val ''var y = 1;'',
      loc = Val \<lparr>source = Val ''a.js'', loc_type = Undefined,
                 start = \<lparr>line = 1, column = 7, offset = 6, pos_keys = pos_names\<rparr>,
                 loc_end = \<lparr>line = 1, column = 2, offset = 1, pos_keys = pos_names\<rparr>,
      loc_keys = loc_names\<rparr>,
      indent = Undefined,
      msg_keys = msg_names\<rparr>"

definition ex_past_end_message :: FlowMessage where
  "ex_past_end_message =
     \<lparr>descr = ''x'', msg_type = Blame, msg_context = Val ''ab'',
      loc = Val \<lparr>source = Val ''a.js'', loc_type = Undefined,
                 start = \<lparr>line = 1, column = 3, offset = 2, pos_keys = pos_names\<rparr>,
                 loc_end = \<lparr>line = 1, column = 3, offset = 2, pos_keys = pos_names\<rparr>,
      loc_keys = loc_names\<rparr>,
      indent = Undefined,
      msg_keys = msg_names\<rparr>"

text \<open>A message whose context line starts with a tab; the location is column 4.\<close>

definition ex_tab_message :: FlowMessage where
  "ex_tab_message =
     \<lparr>descr = ''y'', msg_type = Blame, msg_context = Val (CHR 0x09 # ''x.f();''),
      loc = Val \<lparr>source = Val ''a.js'', loc_type = Undefined,
                 start = \<lparr>line = 12, column = 4, offset = 40, pos_keys = pos_names\<rparr>,
                 loc_end = \<lparr>line = 12, column = 4, offset = 40, pos_keys = pos_names\<rparr>,
      loc_keys = loc_names\<rparr>,
      indent = Val 2,
      msg_keys = msg_names\<rparr>"

text \<open>The unit that \<open>getTraceReasons\<close> puts before a trace.\<close>

definition Trace_message :: FlowMessage where
  "Trace_message =
     \<lparr>descr = ''Trace:'', msg_type = Blame, msg_context = Undefined, loc = Undefined,
      indent = Undefined,
      msg_keys = [''descr'', ''type'']\<rparr>"

text \<open>The example error with a trace of one message (the message itself).\<close>

definition ex_trace_error :: "ref FlowError" where
  "ex_trace_error =
     \<lparr>kind = ''infer'', level = ''error'', message = [0], trace = Val [0],
      operation = Undefined, extra = Undefined\<rparr>"



text \<open>
  The example message followed by a comment (addresses 0 and 1), and the header that the
  planner allocates for them (address 2).
\<close>

definition ex_comment_heap :: heap where
  "ex_comment_heap = [ex_call_message, mkComment ''see also'', mkComment ''a.js:3'']"






text \<open>
  A report whose error has the example message and, as extra detail, one group holding
  the comment \<^verbatim>\<open>see also\<close>; the store holds the message at address 0 and the comment at 1.
\<close>

definition ex_extra_heap :: heap where
  "ex_extra_heap = [ex_call_message, mkComment ''see also'']"

definition ex_extra_result :: "ref FlowResult" where
  "ex_extra_result =
     \<lparr>passed = False,
      errors = [\<lparr>kind = ''infer'', level = ''error'', message = [0], trace = Null,
                 operation = Undefined, extra = Val [FlowExtraNode [1] Undefined]\<rparr>],
      flowVersion = ''0.30.0''\<rparr>"

section \<open>Rendering one message\<close>

lemma Array_join_Suc: "0 \<le> n \<Longrightarrow> Array_join (n + 1) c = Inr (replicate (nat n) c)"
  by (simp add: Array_join_def nat_diff_distrib)

lemma Array_join_length: "Array_join (int k + 1) c = Inr (replicate k c)"
  using Array_join_Suc [of "int k" c] by simp

lemma prettyPrintMessage_throws:
  "or0 (indent m) < - 1 \<Longrightarrow> prettyPrintMessage mainFile m = Inl RangeError"
  by (simp add: prettyPrintMessage_def bind_def Array_join_def)

lemma indentation_Inr:
  "- 1 \<le> or0 (indent m) \<Longrightarrow> Array_join (or0 (indent m) + 1) CHR '' '' = Inr (indentation_of m)"
  by (simp add: Array_join_def indentation_of_def nat_diff_distrib)

lemma prettyPrintMessage_no_loc:
  assumes "loc m = Undefined \<or> loc m = Null" and "- 1 \<le> or0 (indent m)"
  shows "prettyPrintMessage mainFile m = Inr (indentation_of m @ descr m)"
  using assms by (auto simp: prettyPrintMessage_def bind_def indentation_Inr)

lemma prettyPrintMessage_no_context:
  assumes "loc m = Val l" and "msg_context m = Undefined \<or> msg_context m = Null"
    and "- 1 \<le> or0 (indent m)"
  shows "prettyPrintMessage mainFile m =
           Inr (indentation_of m @ descr m @ see_another_file_of mainFile l)"
  using assms
  by (auto simp: prettyPrintMessage_def bind_def indentation_Inr see_another_file_of_def)

text \<open>
  A message with a location and a context line: the whole rendering. It throws only for
  an indent below \<open>- 1\<close>, whatever the location.
\<close>

lemma prettyPrintMessage_context:
  assumes l: "loc m = Val l" and c: "msg_context m = Val c" and i: "- 1 \<le> or0 (indent m)"
  shows "prettyPrintMessage mainFile m =
           Inr (indentation_of m @ lineStr_of l @ c @ ''\<newline>'' @
                indentation_of m @
                replicate (length (lineStr_of l)) CHR '' '' @
                (if column (start l) - 1 < int (length c)
                 then map blank (take (nat (column (start l) - 1)) c) else '''') @
                replicate (nat (if line (start l) = line (loc_end l)
                                then max 1 (column (loc_end l) - (column (start l) - 1))
                                else 1)) CHR ''^'' @
                '' '' @ descr m @ see_another_file_of mainFile l)"
proof -
  have und: "Array_join (u + 1) CHR ''^'' = Inr (replicate (nat u) CHR ''^'')"
    if "u = (if line (start l) = line (loc_end l)
             then max 1 (column (loc_end l) - (column (start l) - 1)) else 1)" for u
    using that by (intro Array_join_Suc) (simp split: if_splits)
  show ?thesis
    unfolding prettyPrintMessage_def
    by (simp add: l c indentation_Inr [OF i] und Array_join_length bind_def Let_def
        lineStr_of_def see_another_file_of_def)
qed

lemma set_map_blank: "set (map blank xs) \<subseteq> {CHR '' '', CHR 0x09}"
  by (auto simp: blank_def)

lemma lineStr_of_nonempty: "lineStr_of l \<noteq> []"
  by (simp add: lineStr_of_def Let_def)

text \<open>
  C4. A message with a location and a context line is rendered as the context block, the
  underline, a space, the text and the cross-file suffix. The underline is a run of
  carets that follows a non-empty padding of spaces and tabs: \<open>max 1 (end.column -
  (start.column - 1))\<close> carets when the location starts and ends on the same line, one
  caret otherwise. No location makes the rendering throw, one whose end precedes its
  start included: the only exception is the \<^verbatim>\<open>RangeError\<close> of an indent below \<open>- 1\<close>.
\<close>

theorem underline_length:
  assumes "loc m = Val l" and "msg_context m = Val c"
  shows "\<exists>pad. pad \<noteq> [] \<and> set pad \<subseteq> {CHR '' '', CHR 0x09} \<and>
           prettyPrintMessage mainFile m =
             (if or0 (indent m) < - 1 then Inl RangeError
              else Inr (indentation_of m @ lineStr_of l @ c @ ''\<newline>'' @
                        indentation_of m @ pad @
                        replicate (if line (start l) = line (loc_end l)
                                   then nat (max 1 (column (loc_end l) - (column (start l) - 1)))
                                   else 1) CHR ''^'' @
                        '' '' @ descr m @ see_another_file_of mainFile l))"
proof (cases "or0 (indent m) < - 1")
  case True
  then show ?thesis
    by (intro exI [of _ "'' ''"]) (simp add: prettyPrintMessage_throws)
next
  case False
  let ?pad = "replicate (length (lineStr_of l)) CHR '' '' @
              (if column (start l) - 1 < int (length c)
               then map blank (take (nat (column (start l) - 1)) c) else '''')"
  have "?pad \<noteq> []"
    by (simp add: lineStr_of_nonempty)
  moreover have "set ?pad \<subseteq> {CHR '' '', CHR 0x09}"
    using set_map_blank [of "take (nat (column (start l) - 1)) c"] by auto
  moreover have "prettyPrintMessage mainFile m =
      Inr (indentation_of m @ lineStr_of l @ c @ ''\<newline>'' @ indentation_of m @ ?pad @
           replicate (if line (start l) = line (loc_end l)
                      then nat (max 1 (column (loc_end l) - (column (start l) - 1)))
                      else 1) CHR ''^'' @
           '' '' @ descr m @ see_another_file_of mainFile l)"
    using False prettyPrintMessage_context [OF assms, of mainFile] by (simp split: if_splits)
  ultimately show ?thesis
    using False by (intro exI [of _ ?pad]) simp
qed

text \<open>
  At a location that runs backwards (column 7 to column 2 of line 1): one caret.
\<close>

theorem underline_length_witness:
  "loc ex_backwards_message =
     Val \<lparr>source = Val ''a.js'', loc_type = Undefined,
          start = \<lparr>line = 1, column = 7, offset = 6, pos_keys = pos_names\<rparr>,
          loc_end = \<lparr>line = 1, column = 2, offset = 1, pos_keys = pos_names\<rparr>,
      loc_keys = loc_names\<rparr> \<and>
   msg_context ex_backwards_message = Val ''var y = 1;'' \<and>
   (\<exists>pad. pad \<noteq> [] \<and> set pad \<subseteq> {CHR '' '', CHR 0x09} \<and>
      prettyPrintMessage ''a.js'' ex_backwards_message =
        Inr (''  1: var y = 1;\<newline>'' @ pad @ ''^ x''))"
proof -
  let ?l = "\<lparr>source = Val ''a.js'', loc_type = Undefined,
             start = \<lparr>line = 1, column = 7, offset = 6, pos_keys = pos_names\<rparr>,
             loc_end = \<lparr>line = 1, column = 2, offset = 1, pos_keys = pos_names\<rparr>,
      loc_keys = loc_names\<rparr>"
  have l: "loc ex_backwards_message = Val ?l"
    and c: "msg_context ex_backwards_message = Val ''var y = 1;''"
    by (simp_all add: ex_backwards_message_def)
  have "indentation_of ex_backwards_message = ''''" "lineStr_of ?l = ''  1: ''"
    "see_another_file_of ''a.js'' ?l = ''''" "descr ex_backwards_message = ''x''"
    "or0 (indent ex_backwards_message) = 0"
    by code_simp+
  with underline_length [OF l c, of "''a.js''"] l c show ?thesis
    by simp
qed

text \<open>
  C8, as the code has it. In the rendering of a message with a location and a context
  line, the padding between the indentation of the second line and the underline is one
  space per character of the line-number label, followed, when the context is strictly
  longer than \<open>startCol = start.column - 1\<close> characters, by the first \<open>startCol\<close>
  characters of the context with every character but tab and space replaced by a space.
  A context of \<open>startCol\<close> characters or fewer gets the label's spaces only.
\<close>

theorem padding_before_underline:
  assumes "loc m = Val l" and "msg_context m = Val c"
    and "prettyPrintMessage mainFile m = Inr out"
  shows "\<exists>k. 0 < k \<and>
           out = indentation_of m @ lineStr_of l @ c @ ''\<newline>'' @ indentation_of m @
                 (replicate (length (lineStr_of l)) CHR '' '' @
                  (if int (length c) > column (start l) - 1
                   then map blank (take (nat (column (start l) - 1)) c) else '''')) @
                 replicate k CHR ''^'' @ '' '' @ descr m @ see_another_file_of mainFile l"
proof -
  have "- 1 \<le> or0 (indent m)"
    using assms(3) prettyPrintMessage_throws [of m mainFile] by (cases "or0 (indent m) < - 1") auto
  from prettyPrintMessage_context [OF assms(1,2) this, of mainFile] assms(3)
  show ?thesis
    by (intro exI [of _ "nat (if line (start l) = line (loc_end l)
                              then max 1 (column (loc_end l) - (column (start l) - 1))
                              else 1)"]) (simp split: if_splits)
qed

theorem padding_before_underline_witness:
  "loc ex_tab_message =
     Val \<lparr>source = Val ''a.js'', loc_type = Undefined,
          start = \<lparr>line = 12, column = 4, offset = 40, pos_keys = pos_names\<rparr>,
          loc_end = \<lparr>line = 12, column = 4, offset = 40, pos_keys = pos_names\<rparr>,
      loc_keys = loc_names\<rparr> \<and>
   msg_context ex_tab_message = Val (CHR 0x09 # ''x.f();'') \<and>
   (\<exists>k. 0 < k \<and>
      prettyPrintMessage ''a.js'' ex_tab_message =
        Inr (''   12: '' @ CHR 0x09 # ''x.f();\<newline>'' @ ''  '' @
             (''     '' @ CHR 0x09 # ''  '') @ replicate k CHR ''^'' @ '' y''))"
proof -
  let ?l = "\<lparr>source = Val ''a.js'', loc_type = Undefined,
             start = \<lparr>line = 12, column = 4, offset = 40, pos_keys = pos_names\<rparr>,
             loc_end = \<lparr>line = 12, column = 4, offset = 40, pos_keys = pos_names\<rparr>,
      loc_keys = loc_names\<rparr>"
  let ?c = "CHR 0x09 # ''x.f();''"
  have l: "loc ex_tab_message = Val ?l" and c: "msg_context ex_tab_message = Val ?c"
    by (simp_all add: ex_tab_message_def)
  define out where "out = ''   12: '' @ CHR 0x09 # ''x.f();\<newline>'' @ ''  '' @
                           (''     '' @ CHR 0x09 # ''  '') @ ''^ y''"
  have out: "prettyPrintMessage ''a.js'' ex_tab_message = Inr out"
    unfolding out_def by code_simp
  have parts: "indentation_of ex_tab_message = ''  ''" "lineStr_of ?l = '' 12: ''"
    "see_another_file_of ''a.js'' ?l = ''''" "descr ex_tab_message = ''y''"
    "replicate (length '' 12: '') CHR '' '' @
       (if int (length ?c) > column (start ?l) - 1
        then map blank (take (nat (column (start ?l) - 1)) ?c) else '''') =
     ''     '' @ CHR 0x09 # ''  ''"
    by code_simp+
  from padding_before_underline [OF l c out] obtain k where
    "0 < k" "out = ''   12: '' @ CHR 0x09 # ''x.f();\<newline>'' @ ''  '' @
             (''     '' @ CHR 0x09 # ''  '') @ replicate k CHR ''^'' @ '' y''"
    unfolding parts by auto
  with l c out show ?thesis
    by blast
qed

text \<open>
  The claim as stated fails where the context is exactly \<open>startCol\<close> characters long:
  for the context \<^verbatim>\<open>ab\<close> and start column 3 the code emits the five spaces of the label
  only, where the claim adds two more for the blanked context.
\<close>

theorem padding_claim_counterexample:
  "msg_context ex_past_end_message = Val ''ab'' \<and>
   map_js (\<lambda>l. column (start l) - 1) (loc ex_past_end_message) = Val (int (length ''ab'')) \<and>
   prettyPrintMessage ''a.js'' ex_past_end_message =
     Inr (''  1: ab\<newline>'' @ ''     '' @ ''^ x'') \<and>
   prettyPrintMessage ''a.js'' ex_past_end_message \<noteq>
     Inr (''  1: ab\<newline>'' @ (''     '' @ map blank (take 2 ''ab'')) @ ''^ x'')"
  by code_simp

section \<open>The planner\<close>

lemma getTraceReasons_eq:
  "getTraceReasons h tr =
     (case tr of Val (r # rs) \<Rightarrow> (h @ [Trace_message], length h # r # rs) | _ \<Rightarrow> (h, []))"
  by (simp add: getTraceReasons_def alloc_def Trace_message_def split: js.splits list.splits)

lemma planned_messages_trace:
  "\<exists>h4 front. planned_messages h error mainLoc =
      (fst (getTraceReasons h4 (trace error)), front @ snd (getTraceReasons h4 (trace error)))"
proof -
  obtain h1 header where 1: "getHeader h mainLoc = (h1, header)"
    by (cases "getHeader h mainLoc")
  obtain h2 km where 2: "getKindMessage h1 (kind error) (level error) (message error) = (h2, km)"
    by (cases "getKindMessage h1 (kind error) (level error) (message error)")
  obtain h3 opr where 3: "getOpReason h2 (operation error) = (h3, opr)"
    by (cases "getOpReason h2 (operation error)")
  obtain h4 ex where 4: "getExtraMessages h3 (extra error) = (h4, ex)"
    by (cases "getExtraMessages h3 (extra error)")
  have "planned_messages h error mainLoc =
      (fst (getTraceReasons h4 (trace error)),
       (header @ km @ opr @ message error @ ex) @ snd (getTraceReasons h4 (trace error)))"
    by (simp add: planned_messages_def 1 2 3 4 split: prod.splits)
  then show ?thesis
    by blast
qed

text \<open>
  C3, as the code has it. For a trace that is present and not empty, \<open>getTraceReasons\<close>
  returns a new unit with the text \<^verbatim>\<open>Trace:\<close>, of type \<open>Blame\<close> and with no location,
  context or indent, followed by the trace as it is and in order; the units of the trace
  and every other object of the store are left as they were. For a trace that is empty,
  \<^verbatim>\<open>null\<close> or missing it returns nothing. Its result is the last part of the planned
  sequence.
\<close>

theorem trace_reasons:
  "(\<forall>t. trace error = Val t \<and> t \<noteq> [] \<and> (\<forall>r \<in> set t. r < length h) \<longrightarrow>
      (\<exists>h' r. getTraceReasons h (trace error) = (h', r # t) \<and>
         r = length h \<and> r \<notin> set t \<and>
         h' ! r = \<lparr>descr = ''Trace:'', msg_type = Blame, msg_context = Undefined,
                   loc = Undefined, indent = Undefined,
        msg_keys = [''descr'', ''type'']\<rparr> \<and>
         map (nth h') t = map (nth h) t \<and> take (length h) h' = h)) \<and>
   (trace error = Val [] \<or> trace error = Null \<or> trace error = Undefined \<longrightarrow>
      getTraceReasons h (trace error) = (h, [])) \<and>
   (\<exists>h4 front. planned_messages h error mainLoc =
      (fst (getTraceReasons h4 (trace error)), front @ snd (getTraceReasons h4 (trace error))))"
proof (intro conjI allI impI)
  fix t
  assume a: "trace error = Val t \<and> t \<noteq> [] \<and> (\<forall>r \<in> set t. r < length h)"
  then obtain r rs where t: "t = r # rs"
    by (cases t) auto
  have "map (nth (h @ [Trace_message])) t = map (nth h) t"
    using a by (simp add: nth_append)
  moreover have "length h \<notin> set t"
    using a by auto
  ultimately show "\<exists>h' r. getTraceReasons h (trace error) = (h', r # t) \<and>
         r = length h \<and> r \<notin> set t \<and>
         h' ! r = \<lparr>descr = ''Trace:'', msg_type = Blame, msg_context = Undefined,
                   loc = Undefined, indent = Undefined,
        msg_keys = [''descr'', ''type'']\<rparr> \<and>
         map (nth h') t = map (nth h) t \<and> take (length h) h' = h"
    using a t by (simp add: getTraceReasons_eq Trace_message_def)
next
  assume "trace error = Val [] \<or> trace error = Null \<or> trace error = Undefined"
  then show "getTraceReasons h (trace error) = (h, [])"
    by (auto simp: getTraceReasons_eq)
next
  show "\<exists>h4 front. planned_messages h error mainLoc =
      (fst (getTraceReasons h4 (trace error)), front @ snd (getTraceReasons h4 (trace error)))"
    by (rule planned_messages_trace)
qed

theorem trace_reasons_witness:
  "trace ex_trace_error = Val [0] \<and> [0 :: ref] \<noteq> [] \<and> (0 :: ref) < length [ex_call_message] \<and>
   (\<exists>h'. getTraceReasons [ex_call_message] (trace ex_trace_error) = (h', [1, 0]) \<and>
      h' ! 1 = \<lparr>descr = ''Trace:'', msg_type = Blame, msg_context = Undefined,
                 loc = Undefined, indent = Undefined,
        msg_keys = [''descr'', ''type'']\<rparr> \<and>
      h' ! 0 = ex_call_message) \<and>
   getTraceReasons [ex_call_message] (trace ex_call_error) = ([ex_call_message], [])"
  using trace_reasons [of ex_trace_error "[ex_call_message]"]
    trace_reasons [of ex_call_error "[ex_call_message]"]
  by (auto simp: ex_trace_error_def ex_call_error_def)

text \<open>
  The claim as stated fails on the type of the unit: it is \<open>Blame\<close>, not \<open>Comment\<close>
  (a location-less \<open>Comment\<close> would be merged into the unit before it).
\<close>

theorem trace_comment_counterexample:
  "trace ex_trace_error = Val [0] \<and>
   getTraceReasons [ex_call_message] (trace ex_trace_error) =
     ([ex_call_message,
       \<lparr>descr = ''Trace:'', msg_type = Blame, msg_context = Undefined, loc = Undefined,
        indent = Undefined,
        msg_keys = [''descr'', ''type'']\<rparr>], [1, 0]) \<and>
   msg_type (fst (getTraceReasons [ex_call_message] (trace ex_trace_error)) ! 1) \<noteq> Comment"
  by (simp add: getTraceReasons_def ex_trace_error_def alloc_def)



section \<open>The report formatter\<close>

text \<open>
  C7. On a report with \<^verbatim>\<open>passed\<close> true, \<open>prettyPrintWithHeader\<close> returns \<^verbatim>\<open>No errors\<close>
  and leaves the store alone. On a report with \<^verbatim>\<open>passed\<close> false and \<open>N\<close> errors it
  returns what \<open>prettyPrint\<close> returns (or throws what it throws), after the count line:
  \<open>N\<close> in decimal, then \<^verbatim>\<open> error\<close> for \<open>N = 1\<close> and \<^verbatim>\<open> errors\<close> otherwise, then a
  newline.
\<close>

theorem header_line:
  "(passed result \<longrightarrow> prettyPrintWithHeader h result = (h, Inr ''No errors'')) \<and>
   (\<not> passed result \<longrightarrow>
      prettyPrintWithHeader h result =
        (fst (prettyPrint h result),
         map_sum id
           (\<lambda>s. String (int (length (errors result))) @
                (if length (errors result) = 1 then '' error'' else '' errors'') @
                ''\<newline>'' @ s)
           (snd (prettyPrint h result))))"
  by (auto simp: prettyPrintWithHeader_def bind_def split: prod.splits sum.splits)

theorem header_line_witness:
  "\<not> passed ex_call_result \<and>
   snd (prettyPrintWithHeader [ex_call_message] ex_call_result) =
     Inr (''1 error'' @ ''\<newline>'' @
          ''a.js:3\<newline>  3: foo();\<newline>     ^^^^ Cannot call function'') \<and>
   passed (ex_call_result\<lparr>passed := True\<rparr>) \<and>
   prettyPrintWithHeader [ex_call_message] (ex_call_result\<lparr>passed := True\<rparr>) =
     ([ex_call_message], Inr ''No errors'')"
proof -
  have "snd (prettyPrint [ex_call_message] ex_call_result) =
          Inr ''a.js:3\<newline>  3: foo();\<newline>     ^^^^ Cannot call function''"
    "String (int (length (errors ex_call_result))) = ''1''"
    "length (errors ex_call_result) = 1" "\<not> passed ex_call_result"
    by code_simp+
  with header_line [of ex_call_result "[ex_call_message]"]
    header_line [of "ex_call_result\<lparr>passed := True\<rparr>" "[ex_call_message]"]
  show ?thesis
    by simp
qed

text \<open>
  C5, as the code has it. The example error of the specification is rendered as the
  header \<^verbatim>\<open>a.js:3\<close>, the context line \<^verbatim>\<open>  3: foo();\<close>, and an underline of four carets
  (\<open>max 1 (end.column - (start.column - 1)) = 4 - 0\<close>) that starts under the \<^verbatim>\<open>f\<close>,
  followed by a space and \<^verbatim>\<open>Cannot call function\<close>.
\<close>

theorem example_rendering:
  "snd (prettyPrintError [ex_call_message] ex_call_error) =
     Inr ''a.js:3\<newline>  3: foo();\<newline>     ^^^^ Cannot call function'' \<and>
   snd (prettyPrint [ex_call_message] ex_call_result) =
     Inr ''a.js:3\<newline>  3: foo();\<newline>     ^^^^ Cannot call function''"
  by code_simp

text \<open>The rendering with three carets, which the claim states, is not what is returned.\<close>

theorem example_three_carets_counterexample:
  "snd (prettyPrintError [ex_call_message] ex_call_error) \<noteq>
     Inr ''a.js:3\<newline>  3: foo();\<newline>     ^^^ Cannot call function'' \<and>
   map_sum id (\<lambda>out. length (filter (\<lambda>c. c = CHR ''^'') out))
     (snd (prettyPrintError [ex_call_message] ex_call_error)) = Inr 4"
  by code_simp

section \<open>The merge pass\<close>

lemma has_loc_iff: "(case x of Val _ \<Rightarrow> True | _ \<Rightarrow> False) = (x \<noteq> Undefined \<and> x \<noteq> Null)"
  by (cases x) auto

lemma merge_messages_Nil: "merge_messages h [] = (h, [])"
  by (simp add: merge_messages_def)

lemma merge_messages_snoc:
  "merge_messages h (ms @ [r]) = merge_step (merge_messages h ms) r"
  by (simp add: merge_messages_def)

lemma merge_step_push:
  "loc (h ! r) \<noteq> Undefined \<and> loc (h ! r) \<noteq> Null \<or> acc = [] \<or> msg_type (h ! r) = Blame \<Longrightarrow>
   merge_step (h, acc) r = (h, acc @ [r])"
  by (auto simp: merge_step_def has_loc_iff)

lemma merge_step_join:
  "\<not> (loc (h ! r) \<noteq> Undefined \<and> loc (h ! r) \<noteq> Null) \<Longrightarrow> acc \<noteq> [] \<Longrightarrow>
   msg_type (h ! r) \<noteq> Blame \<Longrightarrow> descr (h ! r) \<noteq> ''Error:'' \<Longrightarrow>
   merge_step (h, acc) r =
     (h[last acc := (h ! last acc)\<lparr>descr :=
          (if descr (h ! last acc) = '''' then descr (h ! r)
           else descr (h ! last acc) @ ''. '' @ descr (h ! r))\<rparr>], acc)"
  by (auto simp: merge_step_def has_loc_iff last_conv_nth Let_def)

lemma merge_step_drop:
  "\<not> (loc (h ! r) \<noteq> Undefined \<and> loc (h ! r) \<noteq> Null) \<Longrightarrow> acc \<noteq> [] \<Longrightarrow>
   msg_type (h ! r) \<noteq> Blame \<Longrightarrow> descr (h ! r) = ''Error:'' \<Longrightarrow>
   merge_step (h, acc) r = (h, acc)"
  by (auto simp: merge_step_def has_loc_iff)

lemma map_nth_update_last:
  assumes "acc \<noteq> []" and "distinct acc" and "last acc < length h"
  shows "map (nth (h[last acc := v])) acc = butlast (map (nth h) acc) @ [v]"
proof -
  obtain ys p where acc: "acc = ys @ [p]"
    using assms(1) by (cases acc rule: rev_cases) auto
  have "p \<notin> set ys"
    using assms(2) acc by simp
  then have "map (nth (h[p := v])) ys = map (nth h) ys"
    by (intro map_cong refl) (metis nth_list_update_neq)
  then show ?thesis
    using assms(3) acc by (simp add: butlast_append)
qed

text \<open>The fold on references computes the fold on units, when no object occurs twice.\<close>

lemma merge_messages_refines:
  assumes "distinct rs" and "\<forall>r \<in> set rs. r < length h"
  shows "case merge_messages h rs of (h', acc) \<Rightarrow>
           map (nth h') acc = merge_pass_spec (map (nth h) rs) \<and>
           set acc \<subseteq> set rs \<and> distinct acc \<and> length h' = length h \<and>
           (\<forall>i. i \<notin> set acc \<longrightarrow> h' ! i = h ! i)"
  using assms
proof (induction rs rule: rev_induct)
  case Nil
  show ?case
    by (simp add: merge_messages_Nil merge_pass_spec_def)
next
  case (snoc x xs)
  obtain h' acc where m: "merge_messages h xs = (h', acc)"
    by (cases "merge_messages h xs")
  from snoc m have inv: "map (nth h') acc = merge_pass_spec (map (nth h) xs)"
    "set acc \<subseteq> set xs" "distinct acc" "length h' = length h"
    "\<forall>i. i \<notin> set acc \<longrightarrow> h' ! i = h ! i"
    by auto
  have x: "x \<notin> set acc" "h' ! x = h ! x"
    using snoc.prems inv by auto
  have spec: "merge_pass_spec (map (nth h) (xs @ [x])) =
                merge_unit_spec (map (nth h') acc) (h' ! x)"
    unfolding merge_pass_spec_def inv(1) [unfolded merge_pass_spec_def] x(2) by simp
  consider (push) "loc (h' ! x) \<noteq> Undefined \<and> loc (h' ! x) \<noteq> Null \<or> acc = [] \<or>
                   msg_type (h' ! x) = Blame"
    | (join) "\<not> (loc (h' ! x) \<noteq> Undefined \<and> loc (h' ! x) \<noteq> Null)" "acc \<noteq> []"
             "msg_type (h' ! x) \<noteq> Blame" "descr (h' ! x) \<noteq> ''Error:''"
    | (drop) "\<not> (loc (h' ! x) \<noteq> Undefined \<and> loc (h' ! x) \<noteq> Null)" "acc \<noteq> []"
             "msg_type (h' ! x) \<noteq> Blame" "descr (h' ! x) = ''Error:''"
    by blast
  then show ?case
  proof cases
    case push
    have res: "merge_messages h (xs @ [x]) = (h', acc @ [x])"
      using push by (simp add: merge_messages_snoc m merge_step_push)
    have "merge_unit_spec (map (nth h') acc) (h' ! x) = map (nth h') acc @ [h' ! x]"
      using push by (auto simp: merge_unit_spec_def)
    then have 1: "map (nth h') (acc @ [x]) = merge_pass_spec (map (nth h) (xs @ [x]))"
      unfolding spec by simp
    have 2: "set (acc @ [x]) \<subseteq> set (xs @ [x])" "distinct (acc @ [x])"
      using inv(2,3) x(1) by auto
    have 3: "\<forall>i. i \<notin> set (acc @ [x]) \<longrightarrow> h' ! i = h ! i"
      using inv(5) by simp
    show ?thesis
      unfolding res using 1 2 3 inv(4) by simp
  next
    case join
    let ?v = "(h' ! last acc)\<lparr>descr :=
                 (if descr (h' ! last acc) = '''' then descr (h' ! x)
                  else descr (h' ! last acc) @ ''. '' @ descr (h' ! x))\<rparr>"
    have res: "merge_messages h (xs @ [x]) = (h'[last acc := ?v], acc)"
      using join by (simp add: merge_messages_snoc m merge_step_join)
    have "last acc \<in> set xs"
      using join(2) inv(2) by auto
    then have last: "last acc < length h'"
      using inv(4) snoc.prems(2) by simp
    have "merge_unit_spec (map (nth h') acc) (h' ! x) = butlast (map (nth h') acc) @ [?v]"
      using join by (auto simp: merge_unit_spec_def last_map)
    moreover have "map (nth (h'[last acc := ?v])) acc = butlast (map (nth h') acc) @ [?v]"
      using join(2) inv(3) last by (rule map_nth_update_last)
    ultimately have 1: "map (nth (h'[last acc := ?v])) acc =
                          merge_pass_spec (map (nth h) (xs @ [x]))"
      unfolding spec by simp
    have 2: "set acc \<subseteq> set (xs @ [x])"
      using inv(2) by auto
    have 3: "\<forall>i. i \<notin> set acc \<longrightarrow> h'[last acc := ?v] ! i = h ! i"
      using inv(5) join(2) by (metis last_in_set nth_list_update_neq)
    show ?thesis
      unfolding res using 1 2 3 inv(3,4) by simp
  next
    case drop
    have res: "merge_messages h (xs @ [x]) = (h', acc)"
      using drop by (simp add: merge_messages_snoc m merge_step_drop)
    have "merge_unit_spec (map (nth h') acc) (h' ! x) = map (nth h') acc"
      using drop by (auto simp: merge_unit_spec_def)
    then have 1: "map (nth h') acc = merge_pass_spec (map (nth h) (xs @ [x]))"
      unfolding spec by simp
    have 2: "set acc \<subseteq> set (xs @ [x])"
      using inv(2) by auto
    show ?thesis
      unfolding res using 1 2 inv(3,4,5) by simp
  qed
qed



section \<open>What the planner does to the store\<close>

lemma unchanged_refl: "unchanged n h h"
  by (simp add: unchanged_def)

lemma unchanged_trans: "unchanged n h h' \<Longrightarrow> unchanged n h' h'' \<Longrightarrow> unchanged n h h''"
  by (simp add: unchanged_def)

lemma unchanged_append: "n \<le> length h \<Longrightarrow> unchanged n h (h @ xs)"
  by (simp add: unchanged_def)

lemma unchanged_update: "n \<le> r \<Longrightarrow> unchanged n h (h[r := v])"
  by (simp add: unchanged_def)

lemma unchanged_length: "unchanged n h h' \<Longrightarrow> length h \<le> length h'"
  by (simp add: unchanged_def)

lemma unchanged_whole: "unchanged (length h) h h' \<Longrightarrow> take (length h) h' = h"
  by (simp add: unchanged_def)

lemma unchanged_nth:
  assumes "unchanged n h h'" and "i < n"
  shows "h' ! i = h ! i"
proof -
  have "take n h' ! i = take n h ! i"
    using assms(1) by (simp add: unchanged_def)
  then show ?thesis
    using assms(2) by simp
qed

lemma unchanged_mono:
  assumes "unchanged n h h'" and "k \<le> n"
  shows "unchanged k h h'"
proof -
  have "take k (take n h') = take k (take n h)"
    using assms(1) by (simp add: unchanged_def)
  then show ?thesis
    using assms by (simp add: unchanged_def min_absorb1)
qed

lemma foldl_add_indent_length: "length (foldl add_indent h rs) = length h"
  by (induction rs arbitrary: h) (simp_all add: add_indent_def)

lemma foldl_add_indent_other:
  "i \<notin> set rs \<Longrightarrow> foldl add_indent h rs ! i = h ! i"
  by (induction rs arbitrary: h) (auto simp: add_indent_def)

text \<open>
  \<open>getExtraMessages\<close> returns the references of the tree in pre-order, keeps the length
  of the store, and writes to those references only.
\<close>

lemma getExtraMessages_refs:
  "snd (getExtraMessages h ex) = concat (map node_refs (js_list ex))"
  "snd (extra_reduce h acc ns) = acc @ concat (map node_refs ns)"
proof (induction h ex and h acc ns rule: getExtraMessages_extra_reduce.induct)
  case (5 h acc ms ch rest)
  obtain h' cms where c: "getExtraMessages h ch = (h', cms)"
    by (cases "getExtraMessages h ch")
  with 5 show ?case
    by (cases ch) (auto simp: js_list_def)
qed (auto simp: js_list_def split: prod.splits)

lemma getExtraMessages_length:
  "length (fst (getExtraMessages h ex)) = length h"
  "length (fst (extra_reduce h acc ns)) = length h"
proof (induction h ex and h acc ns rule: getExtraMessages_extra_reduce.induct)
  case (5 h acc ms ch rest)
  obtain h' cms where c: "getExtraMessages h ch = (h', cms)"
    by (cases "getExtraMessages h ch")
  with 5 show ?case
    by auto
qed (auto simp: foldl_add_indent_length split: prod.splits)

lemma getExtraMessages_other:
  "i \<notin> set (concat (map node_refs (js_list ex))) \<Longrightarrow> fst (getExtraMessages h ex) ! i = h ! i"
  "i \<notin> set (concat (map node_refs ns)) \<Longrightarrow> fst (extra_reduce h acc ns) ! i = h ! i"
proof (induction h ex and h acc ns rule: getExtraMessages_extra_reduce.induct)
  case (1 h ex)
  obtain h' ms where r: "extra_reduce h [] ex = (h', ms)"
    by (cases "extra_reduce h [] ex")
  have "ms = concat (map node_refs ex)"
    using getExtraMessages_refs(2) [of h "[]" ex] r by simp
  with 1 r show ?case
    by (simp add: js_list_def foldl_add_indent_other)
next
  case (5 h acc ms ch rest)
  obtain h' cms where c: "getExtraMessages h ch = (h', cms)"
    by (cases "getExtraMessages h ch")
  with 5 show ?case
    by (cases ch) (auto simp: js_list_def)
qed (auto simp: js_list_def)

text \<open>
  Each planner function extends the store by the objects it allocates (\<open>new\<close>) and
  returns their addresses together with references it was given.
\<close>

lemma getHeader_fresh:
  "\<exists>new. getHeader h mainLoc = (h @ new, [length h ..< length h + length new])"
proof -
  have "fst (getHeader h mainLoc) = h @ [last (fst (getHeader h mainLoc))] \<and>
        snd (getHeader h mainLoc) = [length h]"
    by (simp add: getHeader_def alloc_def split: prod.splits)
  then obtain m where "getHeader h mainLoc = (h @ [m], [length h])"
    by (metis prod.collapse)
  then show ?thesis
    by (intro exI [of _ "[m]"]) simp
qed

lemma getKindMessage_fresh:
  "\<exists>new. getKindMessage h k l ms = (h @ new, [length h ..< length h + length new])"
proof -
  have "getKindMessage h k l ms = (h, []) \<or>
        getKindMessage h k l ms =
          (h @ [last (fst (getKindMessage h k l ms))], [length h])"
    by (simp add: getKindMessage_def alloc_def Let_def split: list.splits option.splits)
  then consider "getKindMessage h k l ms = (h, [])"
    | m where "getKindMessage h k l ms = (h @ [m], [length h])"
    by blast
  then show ?thesis
  proof cases
    case 1
    then show ?thesis by (intro exI [of _ "[]"]) simp
  next
    case 2
    then show ?thesis by (intro exI [of _ "[m]"]) simp
  qed
qed

lemma getOpReason_fresh:
  "\<exists>new. getOpReason h op =
     (h @ new, js_list (map_js (\<lambda>r. [r]) op) @ [length h ..< length h + length new])"
proof (cases op)
  case (Val r)
  then show ?thesis
    by (intro exI [of _ "[mkComment ''Error:'']"])
       (simp add: getOpReason_def alloc_def js_list_def)
qed (simp_all add: getOpReason_def js_list_def)

lemma getTraceReasons_fresh:
  "\<exists>new. getTraceReasons h tr =
     (h @ new, [length h ..< length h + length new] @ js_list tr)"
proof (cases "js_list tr = []")
  case True
  then have "getTraceReasons h tr = (h, [])"
    by (auto simp: getTraceReasons_def js_list_def split: js.splits)
  with True show ?thesis
    by (intro exI [of _ "[]"]) simp
next
  case False
  then obtain m where "getTraceReasons h tr = (h @ [m], length h # js_list tr)"
    by (auto simp: getTraceReasons_def alloc_def js_list_def split: js.splits)
  then show ?thesis
    by (intro exI [of _ "[m]"]) simp
qed

lemma unchanged_same_length:
  assumes "length h' = length h" and "\<forall>i. i < n \<longrightarrow> h' ! i = h ! i"
  shows "unchanged n h h'"
proof -
  have "take (min n (length h)) h' = take (min n (length h)) h"
    using assms by (intro nth_take_lemma) auto
  then show ?thesis
    using assms(1) by (simp add: unchanged_def min_def split: if_splits)
qed

lemma getExtraMessages_unchanged:
  assumes "\<forall>r \<in> set (concat (map node_refs (js_list ex))). n \<le> r"
  shows "unchanged n h (fst (getExtraMessages h ex))"
proof (rule unchanged_same_length)
  show "length (fst (getExtraMessages h ex)) = length h"
    by (rule getExtraMessages_length)
  show "\<forall>i. i < n \<longrightarrow> fst (getExtraMessages h ex) ! i = h ! i"
    using assms by (auto intro!: getExtraMessages_other(1) simp del: set_concat)
qed

lemma planned_messages_shape:
  "\<exists>new1 new2 a.
     length h \<le> a \<and> a \<le> length h + length new1 \<and>
     planned_messages h e mainLoc =
       (fst (getExtraMessages (h @ new1) (extra e)) @ new2,
        [length h ..< a] @ js_list (map_js (\<lambda>r. [r]) (operation e)) @
        [a ..< length h + length new1] @ message e @
        concat (map node_refs (js_list (extra e))) @
        [length h + length new1 ..< length h + length new1 + length new2] @
        js_list (trace e))"
proof -
  obtain n1 where 1: "getHeader h mainLoc = (h @ n1, [length h ..< length h + length n1])"
    using getHeader_fresh by blast
  define h1 where "h1 = h @ n1"
  obtain n2 where 2: "getKindMessage h1 (kind e) (level e) (message e) =
      (h1 @ n2, [length h1 ..< length h1 + length n2])"
    using getKindMessage_fresh by blast
  define h2 where "h2 = h1 @ n2"
  obtain n3 where 3: "getOpReason h2 (operation e) =
      (h2 @ n3, js_list (map_js (\<lambda>r. [r]) (operation e)) @
         [length h2 ..< length h2 + length n3])"
    using getOpReason_fresh by blast
  define h3 where "h3 = h2 @ n3"
  define h4 where "h4 = fst (getExtraMessages h3 (extra e))"
  have 4: "getExtraMessages h3 (extra e) = (h4, concat (map node_refs (js_list (extra e))))"
    unfolding h4_def using getExtraMessages_refs(1) [of h3 "extra e"]
    by (metis prod.collapse)
  have l4: "length h4 = length h3"
    unfolding h4_def by (rule getExtraMessages_length)
  obtain n5 where 5: "getTraceReasons h4 (trace e) =
      (h4 @ n5, [length h4 ..< length h4 + length n5] @ js_list (trace e))"
    using getTraceReasons_fresh by blast
  have up: "[length h ..< length h + length n1] @ [length h1 ..< length h1 + length n2] =
            [length h ..< length h2]"
    unfolding h1_def h2_def
    using upt_add_eq_append [of "length h" "length h + length n1" "length n2"]
    by (simp add: add.assoc)
  have "planned_messages h e mainLoc =
       (h4 @ n5,
        ([length h ..< length h + length n1] @ [length h1 ..< length h1 + length n2]) @
        js_list (map_js (\<lambda>r. [r]) (operation e)) @
        [length h2 ..< length h2 + length n3] @ message e @
        concat (map node_refs (js_list (extra e))) @
        [length h4 ..< length h4 + length n5] @ js_list (trace e))"
    unfolding planned_messages_def 1 h1_def [symmetric]
    by (simp add: 2 h2_def [symmetric] 3 h3_def [symmetric] 4 5)
  also have "\<dots> =
       (fst (getExtraMessages (h @ (n1 @ n2 @ n3)) (extra e)) @ n5,
        [length h ..< length h2] @
        js_list (map_js (\<lambda>r. [r]) (operation e)) @
        [length h2 ..< length h + length (n1 @ n2 @ n3)] @ message e @
        concat (map node_refs (js_list (extra e))) @
        [length h + length (n1 @ n2 @ n3) ..<
           length h + length (n1 @ n2 @ n3) + length n5] @
        js_list (trace e))"
    unfolding up l4 by (simp add: h4_def h3_def h2_def h1_def add.assoc)
  finally show ?thesis
    by (intro exI [of _ "n1 @ n2 @ n3"] exI [of _ n5] exI [of _ "length h2"])
       (simp add: h2_def h1_def)
qed

lemma planned_messages_unchanged:
  assumes "\<forall>r \<in> set (error_refs e). n \<le> r" and "n \<le> length h"
  shows "unchanged n h (fst (planned_messages h e mainLoc))"
proof -
  obtain new1 new2 where
    p: "fst (planned_messages h e mainLoc) =
          fst (getExtraMessages (h @ new1) (extra e)) @ new2"
    using planned_messages_shape [of h e mainLoc] by (metis fst_conv)
  let ?h4 = "fst (getExtraMessages (h @ new1) (extra e))"
  have "unchanged n h (h @ new1)"
    using assms(2) by (rule unchanged_append)
  moreover have "unchanged n (h @ new1) ?h4"
    using assms(1) by (intro getExtraMessages_unchanged) (simp add: error_refs_def)
  moreover have "unchanged n ?h4 (?h4 @ new2)"
    using assms(2) by (intro unchanged_append) (simp add: getExtraMessages_length)
  ultimately show ?thesis
    unfolding p by (blast intro: unchanged_trans)
qed

lemma distinct_with_fresh:
  assumes "distinct (o1 @ o2 @ o3)" and "\<forall>r \<in> set (o1 @ o2 @ o3). r < n"
    and "n \<le> a" and "a \<le> b" and "b \<le> c"
  shows "distinct ([n ..< a] @ o1 @ [a ..< b] @ o2 @ [b ..< c] @ o3)"
proof -
  have old: "{k ..< m} \<inter> set xs = {}" "set xs \<inter> {k ..< m} = {}"
    if "n \<le> k" and "set xs \<subseteq> set (o1 @ o2 @ o3)" for k m xs
  proof -
    have "\<forall>x \<in> set xs. x < k"
      using assms(2) that by fastforce
    then show "{k ..< m} \<inter> set xs = {}" "set xs \<inter> {k ..< m} = {}"
      by auto
  qed
  have new: "{k ..< m} \<inter> {m' ..< u} = {}" if "m \<le> m'" for k m m' u :: nat
    using that by auto
  have d1: "{k ..< m} \<inter> set o1 = {}" "set o1 \<inter> {k ..< m} = {}" if "n \<le> k" for k m
    using old [OF that, of o1] by auto
  have d2: "{k ..< m} \<inter> set o2 = {}" "set o2 \<inter> {k ..< m} = {}" if "n \<le> k" for k m
    using old [OF that, of o2] by auto
  have d3: "{k ..< m} \<inter> set o3 = {}" "set o3 \<inter> {k ..< m} = {}" if "n \<le> k" for k m
    using old [OF that, of o3] by auto
  have "n \<le> b" "a \<le> c"
    using assms(3,4,5) by simp_all
  with assms(1,3,4,5) show ?thesis
    by (simp add: d1 d2 d3 new Int_Un_distrib Int_Un_distrib2)
qed

lemma planned_messages_refs:
  assumes "planned_messages h e mainLoc = (h', ms)"
  shows "length h \<le> length h'"
    and "set ms \<subseteq> set (error_refs e) \<union> {length h ..< length h'}"
    and "distinct (error_refs e) \<Longrightarrow> \<forall>r \<in> set (error_refs e). r < length h \<Longrightarrow> distinct ms"
proof -
  obtain new1 new2 a where a: "length h \<le> a" "a \<le> length h + length new1"
    and h': "h' = fst (getExtraMessages (h @ new1) (extra e)) @ new2"
    and ms: "ms = [length h ..< a] @ js_list (map_js (\<lambda>r. [r]) (operation e)) @
        [a ..< length h + length new1] @ (message e @
        concat (map node_refs (js_list (extra e)))) @
        [length h + length new1 ..< length h + length new1 + length new2] @
        js_list (trace e)"
    using planned_messages_shape [of h e mainLoc] assms by auto
  have len: "length h' = length h + length new1 + length new2"
    by (simp add: h' getExtraMessages_length)
  show "length h \<le> length h'"
    by (simp add: len)
  show "set ms \<subseteq> set (error_refs e) \<union> {length h ..< length h'}"
    using a by (auto simp: ms len error_refs_def)
  show "distinct ms"
    if d: "distinct (error_refs e)" and v: "\<forall>r \<in> set (error_refs e). r < length h"
    unfolding ms
  proof (rule distinct_with_fresh [where n = "length h"])
    show "distinct (js_list (map_js (\<lambda>r. [r]) (operation e)) @
            (message e @ concat (map node_refs (js_list (extra e)))) @ js_list (trace e))"
      using d by (auto simp: error_refs_def)
    show "\<forall>r \<in> set (js_list (map_js (\<lambda>r. [r]) (operation e)) @
            (message e @ concat (map node_refs (js_list (extra e)))) @ js_list (trace e)).
            r < length h"
      using v by (auto simp: error_refs_def)
  qed (use a in simp_all)
qed

lemma planned_messages_valid:
  assumes "planned_messages h e mainLoc = (h', ms)"
    and "\<forall>r \<in> set (error_refs e). r < length h"
  shows "\<forall>r \<in> set ms. r < length h'"
  using planned_messages_refs(1,2) [OF assms(1)] assms(2) by fastforce




section \<open>Storing a report: the copy made by \<^verbatim>\<open>JSON.parse(JSON.stringify(x))\<close>\<close>

lemma store_list_eq: "store_list h ms = (h @ ms, [length h ..< length h + length ms])"
proof (induction ms arbitrary: h)
  case Nil
  show ?case by simp
next
  case (Cons m ms)
  have "[length h ..< length h + Suc (length ms)] =
        length h # [Suc (length h) ..< length h + Suc (length ms)]"
    by (rule upt_conv_Cons) simp
  then show ?case
    by (auto simp: Cons alloc_def Suc_le_eq)
qed

lemma upt_append: "i \<le> j \<Longrightarrow> j \<le> k \<Longrightarrow> [i ..< j] @ [j ..< k] = [i ..< k]"
  by (metis le_Suc_ex upt_add_eq_append)

lemma map_nth_fresh:
  "map (nth (h @ ms @ ext)) [length h ..< length h + length ms] = ms"
proof -
  have "map (nth (h @ ms @ ext)) [length h ..< length h + length ms] =
        map (nth (ms @ ext)) [0 ..< length ms]"
    by (intro nth_equalityI) (simp_all add: nth_append)
  also have "\<dots> = take (length ms) (ms @ ext)"
    by (intro nth_equalityI) (simp_all add: nth_append)
  finally show ?thesis
    by simp
qed

text \<open>
  Storing a forest appends its messages in pre-order; the new forest holds the new
  addresses in that order, and reads back as the forest stored, also after the store
  has grown.
\<close>

lemma store_extra_nodes:
  "case store_extra h ex of (h', ex') \<Rightarrow>
     h' = h @ concat (map node_refs (js_list ex)) \<and>
     concat (map node_refs (js_list ex')) = [length h ..< length h'] \<and>
     (\<forall>ext. map_js (map (map_FlowExtraNode (nth (h' @ ext)))) ex' = ex)"
  "case store_nodes h ns of (h', ns') \<Rightarrow>
     h' = h @ concat (map node_refs ns) \<and>
     concat (map node_refs ns') = [length h ..< length h'] \<and>
     (\<forall>ext. map (map_FlowExtraNode (nth (h' @ ext))) ns' = ns)"
proof (induction h ex and h ns rule: store_extra_store_nodes.induct)
  case (1 h ns)
  then show ?case
    by (auto simp: js_list_def split: prod.splits)
next
  case (5 h ms ch rest)
  define h1 where "h1 = h @ ms"
  define ms' where "ms' = [length h ..< length h + length ms]"
  have sl: "store_list h ms = (h1, ms')"
    by (simp add: store_list_eq h1_def ms'_def)
  obtain h2 ch' where se: "store_extra h1 ch = (h2, ch')"
    by (cases "store_extra h1 ch")
  obtain h3 rest' where sn: "store_nodes h2 rest = (h3, rest')"
    by (cases "store_nodes h2 rest")
  from 5(1) [OF sl [symmetric]] se
  have c: "h2 = h1 @ concat (map node_refs (js_list ch))"
    "concat (map node_refs (js_list ch')) = [length h1 ..< length h2]"
    "\<And>ext. map_js (map (map_FlowExtraNode (nth (h2 @ ext)))) ch' = ch"
    by auto
  from 5(2) [OF sl [symmetric] se [symmetric]] sn
  have r: "h3 = h2 @ concat (map node_refs rest)"
    "concat (map node_refs rest') = [length h2 ..< length h3]"
    "\<And>ext. map (map_FlowExtraNode (nth (h3 @ ext))) rest' = rest"
    by auto
  have res: "store_nodes h (FlowExtraNode ms ch # rest) = (h3, FlowExtraNode ms' ch' # rest')"
    by (simp add: sl se sn)
  have heap: "h3 = h @ concat (map node_refs (FlowExtraNode ms ch # rest))"
    by (cases ch) (simp_all add: r(1) c(1) h1_def js_list_def)
  have le: "length h \<le> length h1" "length h1 \<le> length h2" "length h2 \<le> length h3"
    by (simp_all add: h1_def c(1) r(1))
  have "node_refs (FlowExtraNode ms' ch') = ms' @ concat (map node_refs (js_list ch'))"
    by (cases ch') (simp_all add: js_list_def)
  then have refs: "concat (map node_refs (FlowExtraNode ms' ch' # rest')) =
                     [length h ..< length h3]"
    using le upt_append [of "length h" "length h1" "length h2"]
      upt_append [of "length h" "length h2" "length h3"]
    by (simp add: c(2) r(2) ms'_def h1_def)
  have read: "map (map_FlowExtraNode (nth (h3 @ ext))) (FlowExtraNode ms' ch' # rest') =
                FlowExtraNode ms ch # rest" for ext
  proof -
    have "h3 @ ext = h @ ms @ (concat (map node_refs (js_list ch)) @
                                 concat (map node_refs rest) @ ext)"
      by (simp add: r(1) c(1) h1_def)
    then have "map (nth (h3 @ ext)) ms' = ms"
      unfolding ms'_def by (simp only: map_nth_fresh)
    moreover have "map_js (map (map_FlowExtraNode (nth (h3 @ ext)))) ch' = ch"
      using c(3) [of "concat (map node_refs rest) @ ext"] by (simp add: r(1))
    ultimately show ?thesis
      by (simp add: r(3))
  qed
  show ?case
    unfolding res using heap refs read by simp
qed (simp_all add: js_list_def)

lemma store_js_list:
  "store_js store_list h x =
     (h @ js_list x, map_js (\<lambda>_. [length h ..< length h + length (js_list x)]) x)"
  by (cases x) (simp_all add: store_js_def store_list_eq js_list_def)

lemma store_js_alloc:
  "store_js alloc h x = (h @ js_list (map_js (\<lambda>m. [m]) x), map_js (\<lambda>_. length h) x)"
  by (cases x) (simp_all add: store_js_def alloc_def js_list_def)

lemma nth_fresh: "(h @ m # ext) ! length h = m"
  by (simp add: nth_append)

text \<open>
  Storing an error appends its messages, in the order of \<open>error_refs\<close>; the new error
  holds the new addresses in that order, and reads back as the error stored, also after
  the store has grown.
\<close>

lemma store_error_eq:
  assumes "store_error h v = (h', e')"
  shows "h' = h @ error_refs v"
    and "error_refs e' = [length h ..< length h']"
    and "read_error (h' @ ext) e' = v"
proof -
  define t where "t = js_list (trace v)"
  define p where "p = js_list (map_js (\<lambda>m. [m]) (operation v))"
  define x where "x = concat (map node_refs (js_list (extra v)))"
  define h1 where "h1 = h @ message v"
  define h2 where "h2 = h1 @ t"
  define h3 where "h3 = h2 @ p"
  obtain h4 ex' where se: "store_extra h3 (extra v) = (h4, ex')"
    by (cases "store_extra h3 (extra v)")
  from store_extra_nodes(1) [of h3 "extra v"] se
  have ex: "h4 = h3 @ x" "concat (map node_refs (js_list ex')) = [length h3 ..< length h4]"
    "\<And>ext. map_js (map (map_FlowExtraNode (nth (h4 @ ext)))) ex' = extra v"
    by (auto simp: x_def)
  have e': "e' = \<lparr>kind = kind v, level = level v,
                   message = [length h ..< length h + length (message v)],
                   trace = map_js (\<lambda>_. [length h1 ..< length h1 + length t]) (trace v),
                   operation = map_js (\<lambda>_. length h2) (operation v), extra = ex'\<rparr>"
    and h': "h' = h4"
    using assms se
    by (simp_all add: store_error_def store_list_eq store_js_list store_js_alloc
        h1_def h2_def h3_def t_def p_def add.assoc)
  show heap: "h' = h @ error_refs v"
    by (simp add: h' ex(1) h3_def h2_def h1_def error_refs_def t_def p_def x_def)
  have tr: "js_list (map_js (\<lambda>_. [length h1 ..< length h1 + length t]) (trace v)) =
              [length h1 ..< length h2]"
    by (cases "trace v") (simp_all add: js_list_def t_def h2_def)
  have op: "js_list (map_js (\<lambda>r. [r]) (map_js (\<lambda>_. length h2) (operation v))) =
              [length h2 ..< length h3]"
    by (cases "operation v") (simp_all add: js_list_def p_def h3_def)
  have le: "length h \<le> length h1" "length h1 \<le> length h2" "length h2 \<le> length h3"
    "length h3 \<le> length h4"
    by (simp_all add: h1_def h2_def h3_def ex(1))
  have "error_refs e' =
          [length h ..< length h1] @ [length h1 ..< length h2] @ [length h2 ..< length h3] @
          [length h3 ..< length h4]"
    by (simp add: error_refs_def e' tr op ex(2)) (simp add: h1_def)
  also have "\<dots> = [length h ..< length h4]"
    using le by (simp add: upt_append)
  finally show "error_refs e' = [length h ..< length h']"
    by (simp add: h')
  have m: "map (nth (h' @ ext)) [length h ..< length h + length (message v)] = message v"
  proof -
    have "h' @ ext = h @ message v @ (t @ p @ x @ ext)"
      by (simp add: h' ex(1) h3_def h2_def h1_def)
    then show ?thesis
      by (simp only: map_nth_fresh)
  qed
  have t: "map_js (map (nth (h' @ ext)))
             (map_js (\<lambda>_. [length h1 ..< length h1 + length t]) (trace v)) = trace v"
  proof -
    have "h' @ ext = h1 @ t @ (p @ x @ ext)"
      by (simp add: h' ex(1) h3_def h2_def)
    then have "map (nth (h' @ ext)) [length h1 ..< length h1 + length t] = t"
      by (simp only: map_nth_fresh)
    then show ?thesis
      by (cases "trace v") (simp_all add: t_def js_list_def)
  qed
  have o: "map_js (nth (h' @ ext)) (map_js (\<lambda>_. length h2) (operation v)) = operation v"
  proof (cases "operation v")
    case (Val m)
    then have "h' @ ext = h2 @ m # (x @ ext)"
      by (simp add: h' ex(1) h3_def p_def js_list_def)
    then show ?thesis
      using Val by (simp add: nth_fresh)
  qed simp_all
  show "read_error (h' @ ext) e' = v"
    unfolding read_error_def e'
    using m t o ex(3) [of ext] by (simp add: h')
qed

lemma store_errors_eq:
  assumes "store_errors h vs = (h', es')"
  shows "h' = h @ concat (map error_refs vs) \<and>
         concat (map error_refs es') = [length h ..< length h'] \<and>
         (\<forall>ext. map (read_error (h' @ ext)) es' = vs)"
  using assms
proof (induction vs arbitrary: h h' es')
  case Nil
  then show ?case by simp
next
  case (Cons v vs)
  obtain h1 e' where se: "store_error h v = (h1, e')"
    by (cases "store_error h v")
  obtain h2 rest where sr: "store_errors h1 vs = (h2, rest)"
    by (cases "store_errors h1 vs")
  have res: "h' = h2" "es' = e' # rest"
    using Cons.prems by (simp_all add: se sr)
  note e = store_error_eq [OF se]
  from Cons.IH [OF sr] have r: "h2 = h1 @ concat (map error_refs vs)"
    "concat (map error_refs rest) = [length h1 ..< length h2]"
    "\<And>ext. map (read_error (h2 @ ext)) rest = vs"
    by auto
  have le: "length h \<le> length h1" "length h1 \<le> length h2"
    by (simp_all add: r(1) e(1))
  have 1: "h2 = h @ concat (map error_refs (v # vs))"
    by (simp add: r(1) e(1))
  have 2: "concat (map error_refs (e' # rest)) = [length h ..< length h2]"
    using le by (simp add: e(2) r(2) upt_append)
  have "read_error (h2 @ ext) e' = v" for ext
    using e(3) [of "concat (map error_refs vs) @ ext"] by (simp add: r(1))
  then have 3: "map (read_error (h2 @ ext)) (e' # rest) = v # vs" for ext
    by (simp add: r(3))
  show ?case
    unfolding res using 1 2 3 by blast
qed

lemma store_result_eq:
  assumes "store_result h v = (h', r')"
  shows "h' = h @ result_refs v" and "result_refs r' = [length h ..< length h']"
    and "read_result (h' @ ext) r' = v"
proof -
  obtain es' where se: "store_errors h (errors v) = (h', es')"
    and r': "r' = \<lparr>passed = passed v, errors = es', flowVersion = flowVersion v\<rparr>"
    using assms by (auto simp: store_result_def split: prod.splits)
  from store_errors_eq [OF se] have e: "h' = h @ concat (map error_refs (errors v))"
    "concat (map error_refs es') = [length h ..< length h']"
    "\<And>ext. map (read_error (h' @ ext)) es' = errors v"
    by auto
  show "h' = h @ result_refs v" "result_refs r' = [length h ..< length h']"
    using e(1,2) by (simp_all add: result_refs_def r')
  show "read_result (h' @ ext) r' = v"
    by (simp add: read_result_def r' e(3))
qed

lemma error_refs_in_result:
  "e \<in> set (errors r) \<Longrightarrow> set (error_refs e) \<subseteq> set (result_refs r)"
  by (auto simp: result_refs_def)

lemma error_refs_distinct_in_result:
  "e \<in> set (errors r) \<Longrightarrow> distinct (result_refs r) \<Longrightarrow> distinct (error_refs e)"
  by (auto simp: result_refs_def distinct_concat_iff)

section \<open>The merge pass and the fold of the specification\<close>

lemma stored_errors_unshared:
  assumes "store_result h0 v = (h, r')" and "e \<in> set (errors r')"
  shows "distinct (error_refs e)" and "\<forall>x \<in> set (error_refs e). x < length h"
proof -
  note s = store_result_eq(2) [OF assms(1)]
  show "distinct (error_refs e)"
    using error_refs_distinct_in_result [OF assms(2)] s by simp
  show "\<forall>x \<in> set (error_refs e). x < length h"
    using error_refs_in_result [OF assms(2)] s by auto
qed

text \<open>
  C2. The merge pass is one fold from the left over the concatenated sequence, starting
  from an empty output. A unit with a location, or arriving when the output is empty, or
  of type \<open>Blame\<close> is appended to the output as it is. A comment without a location
  arriving at a non-empty output has its text joined to the text of the last output unit
  (\<^verbatim>\<open><prev>. <text>\<close>, or just the text when the previous text is empty) unless its text
  is \<^verbatim>\<open>Error:\<close>, and is dropped without a trace when it is. Read out of the store, the
  result is the fold of the specification (\<open>merge_pass_spec\<close>) whenever no object occurs
  twice in the sequence. The planner's sequence for an error that shares no objects is
  such a sequence, and the errors of a report just stored (the copy that \<open>prettyPrint\<close>
  works on) share no objects.
\<close>

theorem merge_pass:
  "merge_messages h [] = (h, []) \<and>
   (\<forall>ms r. merge_messages h (ms @ [r]) = merge_step (merge_messages h ms) r) \<and>
   (\<forall>acc r. loc (h ! r) \<noteq> Undefined \<and> loc (h ! r) \<noteq> Null \<or> acc = [] \<or>
            msg_type (h ! r) = Blame \<longrightarrow>
      merge_step (h, acc) r = (h, acc @ [r])) \<and>
   (\<forall>acc r. (loc (h ! r) = Undefined \<or> loc (h ! r) = Null) \<and> acc \<noteq> [] \<and>
            msg_type (h ! r) = Comment \<and> descr (h ! r) \<noteq> ''Error:'' \<longrightarrow>
      merge_step (h, acc) r =
        (h[last acc := (h ! last acc)\<lparr>descr :=
             (if descr (h ! last acc) = '''' then descr (h ! r)
              else descr (h ! last acc) @ ''. '' @ descr (h ! r))\<rparr>], acc)) \<and>
   (\<forall>acc r. (loc (h ! r) = Undefined \<or> loc (h ! r) = Null) \<and> acc \<noteq> [] \<and>
            msg_type (h ! r) = Comment \<and> descr (h ! r) = ''Error:'' \<longrightarrow>
      merge_step (h, acc) r = (h, acc)) \<and>
   (\<forall>rs. distinct rs \<and> (\<forall>r \<in> set rs. r < length h) \<longrightarrow>
      map (nth (fst (merge_messages h rs))) (snd (merge_messages h rs)) =
        merge_pass_spec (map (nth h) rs)) \<and>
   (\<forall>h0 e mainLoc ms.
      distinct (error_refs e) \<and> (\<forall>r \<in> set (error_refs e). r < length h0) \<and>
      planned_messages h0 e mainLoc = (h, ms) \<longrightarrow>
      merged_messages h0 e mainLoc = merge_messages h ms \<and>
      map (nth (fst (merge_messages h ms))) (snd (merge_messages h ms)) =
        merge_pass_spec (map (nth h) ms)) \<and>
   (\<forall>h0 v r' e. store_result h0 v = (h, r') \<and> e \<in> set (errors r') \<longrightarrow>
      distinct (error_refs e) \<and> (\<forall>r \<in> set (error_refs e). r < length h))"
proof (intro conjI allI impI)
  show "merge_messages h [] = (h, [])"
    by (rule merge_messages_Nil)
  show "merge_messages h (ms @ [r]) = merge_step (merge_messages h ms) r" for ms r
    by (rule merge_messages_snoc)
  show "merge_step (h, acc) r = (h, acc @ [r])"
    if "loc (h ! r) \<noteq> Undefined \<and> loc (h ! r) \<noteq> Null \<or> acc = [] \<or> msg_type (h ! r) = Blame"
    for acc r
    using that by (rule merge_step_push)
  show "merge_step (h, acc) r =
        (h[last acc := (h ! last acc)\<lparr>descr :=
             (if descr (h ! last acc) = '''' then descr (h ! r)
              else descr (h ! last acc) @ ''. '' @ descr (h ! r))\<rparr>], acc)"
    if "(loc (h ! r) = Undefined \<or> loc (h ! r) = Null) \<and> acc \<noteq> [] \<and>
        msg_type (h ! r) = Comment \<and> descr (h ! r) \<noteq> ''Error:''" for acc r
    using that by (intro merge_step_join) auto
  show "merge_step (h, acc) r = (h, acc)"
    if "(loc (h ! r) = Undefined \<or> loc (h ! r) = Null) \<and> acc \<noteq> [] \<and>
        msg_type (h ! r) = Comment \<and> descr (h ! r) = ''Error:''" for acc r
    using that by (intro merge_step_drop) auto
  show refines: "map (nth (fst (merge_messages h rs))) (snd (merge_messages h rs)) =
        merge_pass_spec (map (nth h) rs)"
    if "distinct rs \<and> (\<forall>r \<in> set rs. r < length h)" for rs
    using merge_messages_refines [of rs h] that by (auto split: prod.splits)
  show "merged_messages h0 e mainLoc = merge_messages h ms"
    if "distinct (error_refs e) \<and> (\<forall>r \<in> set (error_refs e). r < length h0) \<and>
        planned_messages h0 e mainLoc = (h, ms)" for h0 e mainLoc ms
    using that by (simp add: merged_messages_def)
  show "map (nth (fst (merge_messages h ms))) (snd (merge_messages h ms)) =
        merge_pass_spec (map (nth h) ms)"
    if a: "distinct (error_refs e) \<and> (\<forall>r \<in> set (error_refs e). r < length h0) \<and>
        planned_messages h0 e mainLoc = (h, ms)" for h0 e mainLoc ms
  proof -
    have "distinct ms" "\<forall>r \<in> set ms. r < length h"
      using a planned_messages_refs(3) [of h0 e mainLoc h ms]
        planned_messages_valid [of h0 e mainLoc h ms] by auto
    then show ?thesis
      using refines by simp
  qed
  show "distinct (error_refs e)"
    if "store_result h0 v = (h, r') \<and> e \<in> set (errors r')" for h0 v r' and e :: "ref FlowError"
    using that stored_errors_unshared(1) by blast
  show "\<forall>r \<in> set (error_refs e). r < length h"
    if "store_result h0 v = (h, r') \<and> e \<in> set (errors r')" for h0 v r' and e :: "ref FlowError"
    using that stored_errors_unshared(2) by blast
qed

theorem merge_pass_witness:
  "distinct [2, 0, 1 :: ref] \<and>
   2 < length ex_comment_heap \<and> 0 < length ex_comment_heap \<and> 1 < length ex_comment_heap \<and>
   map (nth (fst (merge_messages ex_comment_heap [2, 0, 1])))
       (snd (merge_messages ex_comment_heap [2, 0, 1])) =
     merge_pass_spec [mkComment ''a.js:3'', ex_call_message, mkComment ''see also''] \<and>
   merge_pass_spec [mkComment ''a.js:3'', ex_call_message, mkComment ''see also''] =
     [mkComment ''a.js:3'',
      ex_call_message\<lparr>descr := ''Cannot call function. see also''\<rparr>]"
proof -
  have d: "distinct [2, 0, 1 :: ref] \<and> (\<forall>r \<in> set [2, 0, 1]. r < length ex_comment_heap)"
    by (simp add: ex_comment_heap_def)
  have v: "map (nth ex_comment_heap) [2, 0, 1] =
             [mkComment ''a.js:3'', ex_call_message, mkComment ''see also'']"
    by (simp add: ex_comment_heap_def)
  have s: "merge_pass_spec [mkComment ''a.js:3'', ex_call_message, mkComment ''see also''] =
     [mkComment ''a.js:3'',
      ex_call_message\<lparr>descr := ''Cannot call function. see also''\<rparr>]"
    by code_simp
  from merge_pass [of ex_comment_heap] d
  have "map (nth (fst (merge_messages ex_comment_heap [2, 0, 1])))
            (snd (merge_messages ex_comment_heap [2, 0, 1])) =
          merge_pass_spec (map (nth ex_comment_heap) [2, 0, 1])"
    by blast
  with d v s show ?thesis
    by (simp add: ex_comment_heap_def)
qed

section \<open>The caller's objects are left alone\<close>

text \<open>The merge pass keeps the length of the store and writes to units of the sequence only.\<close>

lemma merge_messages_frame:
  "case merge_messages h rs of (h', acc) \<Rightarrow>
     length h' = length h \<and> set acc \<subseteq> set rs \<and> (\<forall>i. i \<notin> set rs \<longrightarrow> h' ! i = h ! i)"
proof (induction rs rule: rev_induct)
  case Nil
  show ?case by (simp add: merge_messages_Nil)
next
  case (snoc x xs)
  obtain h' acc where m: "merge_messages h xs = (h', acc)"
    by (cases "merge_messages h xs")
  with snoc have inv: "length h' = length h" "set acc \<subseteq> set xs"
    "\<forall>i. i \<notin> set xs \<longrightarrow> h' ! i = h ! i"
    by auto
  have upd: "h'[acc ! (length acc - Suc 0) := v] ! i = h ! i"
    if "acc \<noteq> []" "i \<notin> set xs" for i v
  proof -
    have "i \<noteq> acc ! (length acc - Suc 0)"
      using that inv(2) by (metis One_nat_def last_conv_nth last_in_set subsetD)
    then show ?thesis
      using inv(3) that(2) by simp
  qed
  show ?case
    using inv
    by (auto simp: merge_messages_snoc m merge_step_def Let_def has_loc_iff upd)
qed

lemma merge_messages_unchanged:
  assumes "\<forall>r \<in> set rs. n \<le> r"
  shows "unchanged n h (fst (merge_messages h rs))"
proof -
  obtain h' acc where m: "merge_messages h rs = (h', acc)"
    by (cases "merge_messages h rs")
  with merge_messages_frame [of h rs]
  have "length h' = length h" "\<forall>i. i \<notin> set rs \<longrightarrow> h' ! i = h ! i"
    by auto
  moreover have "i \<notin> set rs" if "i < n" for i
    using assms that by auto
  ultimately have "unchanged n h h'"
    by (intro unchanged_same_length) auto
  then show ?thesis
    by (simp add: m)
qed

text \<open>
  \<open>prettyPrintError\<close> writes only to the objects of its error and to objects it has
  allocated itself.
\<close>

lemma prettyPrintError_unchanged:
  assumes "\<forall>r \<in> set (error_refs e). n \<le> r" and "n \<le> length h"
  shows "unchanged n h (fst (prettyPrintError h e))"
proof (cases "mainLoc_of h e")
  case (Inl x)
  then show ?thesis
    by (simp add: prettyPrintError_def unchanged_refl)
next
  case (Inr mainLoc)
  obtain h1 ms where p: "planned_messages h e mainLoc = (h1, ms)"
    by (cases "planned_messages h e mainLoc")
  have 1: "unchanged n h h1"
    using planned_messages_unchanged [OF assms, of mainLoc] p by simp
  have "\<forall>r \<in> set ms. n \<le> r"
    using planned_messages_refs(2) [OF p] assms by fastforce
  then have 2: "unchanged n h1 (fst (merge_messages h1 ms))"
    by (rule merge_messages_unchanged)
  have "fst (prettyPrintError h e) = fst (merge_messages h1 ms)"
    by (simp add: prettyPrintError_def Inr merged_messages_def p split: prod.splits)
  with 1 2 show ?thesis
    by (simp add: unchanged_trans [of n h h1])
qed

lemma map_prettyPrintError_unchanged:
  assumes "\<forall>e \<in> set es. \<forall>r \<in> set (error_refs e). n \<le> r" and "n \<le> length h"
  shows "unchanged n h (fst (map_prettyPrintError h es))"
  using assms
proof (induction es arbitrary: h)
  case Nil
  show ?case by (simp add: unchanged_refl)
next
  case (Cons e es)
  obtain h1 res where p: "prettyPrintError h e = (h1, res)"
    by (cases "prettyPrintError h e")
  have 1: "unchanged n h h1"
    using prettyPrintError_unchanged [of e n h] Cons.prems p by simp
  then have "n \<le> length h1"
    using Cons.prems(2) unchanged_length by fastforce
  then have 2: "unchanged n h1 (fst (map_prettyPrintError h1 es))"
    using Cons.IH Cons.prems(1) by simp
  show ?case
  proof (cases res)
    case (Inl x)
    with p 1 show ?thesis by simp
  next
    case (Inr s)
    with p have "fst (map_prettyPrintError h (e # es)) = fst (map_prettyPrintError h1 es)"
      by (simp split: prod.splits sum.splits)
    with 1 2 show ?thesis
      by (simp add: unchanged_trans [of n h h1])
  qed
qed

lemma prettyPrint_unchanged: "unchanged (length h) h (fst (prettyPrint h r))"
proof -
  obtain h1 r' where s: "store_result h (read_result h r) = (h1, r')"
    by (cases "store_result h (read_result h r)")
  note e = store_result_eq [OF s]
  have 1: "unchanged (length h) h h1"
    by (simp add: e(1) unchanged_append)
  have "\<forall>e \<in> set (errors r'). \<forall>x \<in> set (error_refs e). length h \<le> x"
    using error_refs_in_result [of _ r'] e(2) by fastforce
  then have 2: "unchanged (length h) h1 (fst (map_prettyPrintError h1 (errors r')))"
    by (intro map_prettyPrintError_unchanged) (simp_all add: e(1))
  have "fst (prettyPrint h r) = fst (map_prettyPrintError h1 (errors r'))"
    by (simp add: prettyPrint_def s split: prod.splits)
  with 1 2 show ?thesis
    by (simp add: unchanged_trans [of _ h h1])
qed

lemma prettyPrintWithHeader_unchanged:
  "unchanged (length h) h (fst (prettyPrintWithHeader h r))"
  using prettyPrint_unchanged [of h r]
  by (auto simp: prettyPrintWithHeader_def unchanged_refl split: prod.splits)

section \<open>The serialization of a message array determines the array\<close>

text \<open>
  \<^verbatim>\<open>difference\<close> compares errors by the text \<^verbatim>\<open>JSON.stringify(error.message)\<close>. This
  section shows that the text is canonical for the message type: two message arrays have
  the same text exactly when they are equal, member by member (lemma
  \<open>stringify_messages_inj\<close>). The proof reads a text from the left: every printer is
  shown to be determined by any text that starts with its output. A decimal number is
  so determined when no digit follows it, a string literal by its closing quote (every
  quote inside is escaped), an object by its members, which are told apart by their keys.
\<close>

subsection \<open>Numbers\<close>

lemma digit_nth_inj:
  "a < 10 \<Longrightarrow> b < 10 \<Longrightarrow> ''0123456789'' ! a = ''0123456789'' ! b \<Longrightarrow> a = b"
  by (simp add: nth_eq_iff_index_eq)

lemma digit_nth_mem: "a < 10 \<Longrightarrow> ''0123456789'' ! a \<in> set ''0123456789''"
  by (rule nth_mem) simp

lemma string_of_nat_digits: "set (string_of_nat n) \<subseteq> set ''0123456789''"
proof (induction n rule: string_of_nat.induct)
  case (1 n)
  have "''0123456789'' ! (n mod 10) \<in> set ''0123456789''"
    by (rule digit_nth_mem) simp
  moreover have "n < 10 \<Longrightarrow> ''0123456789'' ! n \<in> set ''0123456789''"
    by (rule digit_nth_mem)
  ultimately show ?case
    using 1 by (subst string_of_nat.simps) (auto simp del: string_of_nat.simps)
qed

lemma string_of_nat_length: "length (string_of_nat n) = 1 \<longleftrightarrow> n < 10"
proof (cases "n < 10")
  case True
  then show ?thesis by simp
next
  case False
  have "string_of_nat (n div 10) \<noteq> []"
    by (subst string_of_nat.simps) simp
  then have "length (string_of_nat (n div 10)) \<noteq> 0"
    by simp
  with False show ?thesis
    by (subst string_of_nat.simps) (simp del: string_of_nat.simps)
qed

lemma string_of_nat_inj: "string_of_nat n = string_of_nat m \<Longrightarrow> n = m"
proof (induction n arbitrary: m rule: string_of_nat.induct)
  case (1 n)
  show ?case
  proof (cases "n < 10")
    case True
    then have "length (string_of_nat m) = 1"
      using "1.prems" string_of_nat_length [of n] by simp
    then have m: "m < 10"
      using string_of_nat_length [of m] by blast
    with True "1.prems" show ?thesis
      by (simp add: digit_nth_inj)
  next
    case False
    then have "length (string_of_nat m) \<noteq> 1"
      using "1.prems" string_of_nat_length [of n] by simp
    then have m: "\<not> m < 10"
      using string_of_nat_length [of m] by blast
    have n': "string_of_nat n = string_of_nat (n div 10) @ [''0123456789'' ! (n mod 10)]"
      using False by (subst string_of_nat.simps) (simp del: string_of_nat.simps)
    have m': "string_of_nat m = string_of_nat (m div 10) @ [''0123456789'' ! (m mod 10)]"
      using m by (subst string_of_nat.simps) (simp del: string_of_nat.simps)
    from "1.prems" have "string_of_nat (n div 10) = string_of_nat (m div 10)"
      and d: "''0123456789'' ! (n mod 10) = ''0123456789'' ! (m mod 10)"
      unfolding n' m' by simp_all
    then have "n div 10 = m div 10"
      using "1.IH" False by simp
    moreover have "n mod 10 = m mod 10"
      using d by (intro digit_nth_inj) simp_all
    ultimately show ?thesis
      by (metis div_mult_mod_eq)
  qed
qed

lemma takeWhile_stop:
  "set xs \<subseteq> A \<Longrightarrow> s = [] \<or> hd s \<notin> A \<Longrightarrow> takeWhile (\<lambda>c. c \<in> A) (xs @ s) = xs"
proof (induction xs)
  case Nil
  then show ?case by (cases s) simp_all
next
  case (Cons x xs)
  then show ?case by simp
qed

lemma string_of_nat_nonempty: "string_of_nat n \<noteq> []"
  by (subst string_of_nat.simps) simp

lemma String_chars: "set (String i) \<subseteq> set ''-0123456789''"
proof -
  have d: "set (string_of_nat n) \<subseteq> set ''-0123456789''" for n
    using string_of_nat_digits [of n] set_subset_Cons [of "''0123456789''" "CHR ''-''"]
    by (rule subset_trans)
  have m: "CHR ''-'' \<in> set ''-0123456789''"
    by (rule list.set_intros(1))
  show ?thesis
  proof (cases "i < 0")
    case True
    then have "set (String i) = insert CHR ''-'' (set (string_of_nat (nat (- i))))"
      by (simp add: String_def del: string_of_nat.simps)
    with d [of "nat (- i)"] m show ?thesis
      by (simp only: insert_subset)
  next
    case False
    then have "String i = string_of_nat (nat i)"
      by (simp add: String_def del: string_of_nat.simps)
    with d [of "nat i"] show ?thesis
      by (simp only:)
  qed
qed

lemma String_inj: "String i = String j \<Longrightarrow> i = j"
proof -
  have nd: "string_of_nat n \<noteq> CHR ''-'' # s" for n s
  proof
    assume "string_of_nat n = CHR ''-'' # s"
    then have "CHR ''-'' \<in> set (string_of_nat n)"
      by simp
    then show False
      using string_of_nat_digits [of n] by auto
  qed
  assume a: "String i = String j"
  show ?thesis
  proof (cases "i < 0"; cases "j < 0")
    assume "i < 0" "j < 0"
    with a have "nat (- i) = nat (- j)"
      by (intro string_of_nat_inj) (simp add: String_def)
    with \<open>i < 0\<close> \<open>j < 0\<close> show ?thesis by simp
  next
    assume "\<not> i < 0" "\<not> j < 0"
    with a have "nat i = nat j"
      by (intro string_of_nat_inj) (simp add: String_def)
    with \<open>\<not> i < 0\<close> \<open>\<not> j < 0\<close> show ?thesis by simp
  next
    assume "i < 0" "\<not> j < 0"
    with a have "string_of_nat (nat j) = CHR ''-'' # string_of_nat (nat (- i))"
      by (simp add: String_def del: string_of_nat.simps)
    with nd show ?thesis
      by blast
  next
    assume "\<not> i < 0" "j < 0"
    with a have "string_of_nat (nat i) = CHR ''-'' # string_of_nat (nat (- j))"
      by (simp add: String_def del: string_of_nat.simps)
    with nd show ?thesis
      by blast
  qed
qed

text \<open>A number is determined by a text that starts with it and goes on with no digit or sign.\<close>

lemma String_cont:
  assumes "String i @ s = String j @ t"
    and "s = [] \<or> hd s \<notin> set ''-0123456789''" and "t = [] \<or> hd t \<notin> set ''-0123456789''"
  shows "i = j \<and> s = t"
proof -
  have "takeWhile (\<lambda>c. c \<in> set ''-0123456789'') (String i @ s) = String i"
    using String_chars assms(2) by (rule takeWhile_stop)
  moreover have "takeWhile (\<lambda>c. c \<in> set ''-0123456789'') (String j @ t) = String j"
    using String_chars assms(3) by (rule takeWhile_stop)
  ultimately have "String i = String j"
    using assms(1) by simp
  then have "i = j"
    by (rule String_inj)
  with assms(1) show ?thesis
    by simp
qed

subsection \<open>String literals\<close>

lemma hex_nth_inj:
  "a < 16 \<Longrightarrow> b < 16 \<Longrightarrow> ''0123456789abcdef'' ! a = ''0123456789abcdef'' ! b \<Longrightarrow> a = b"
  by (simp add: nth_eq_iff_index_eq)

lemma hex4_inj:
  assumes "hex4 n = hex4 m" and "n < 256" and "m < 256"
  shows "n = m"
proof -
  from assms(1) have e1: "''0123456789abcdef'' ! (n div 16 mod 16) =
                      ''0123456789abcdef'' ! (m div 16 mod 16)"
    and e0: "''0123456789abcdef'' ! (n mod 16) = ''0123456789abcdef'' ! (m mod 16)"
    by (simp_all add: hex4_def)
  have "n div 16 mod 16 = m div 16 mod 16"
    by (rule hex_nth_inj) (simp_all add: e1)
  moreover have "n div 16 < 16" "m div 16 < 16"
    using assms(2,3) by (simp_all add: div_less_iff_less_mult)
  ultimately have d: "n div 16 = m div 16"
    by simp
  have r: "n mod 16 = m mod 16"
    by (rule hex_nth_inj) (simp_all add: e0)
  from d r show ?thesis
    by (metis div_mult_mod_eq)
qed

lemma of_char_less_256: "(of_char c :: nat) < 256"
proof -
  have "(of_char c :: nat) mod 256 < 256"
    by simp
  then show ?thesis
    by (simp only: of_char_mod_256)
qed

lemma hex4_length: "length (hex4 n) = 4"
  by (simp add: hex4_def)

lemma hex4_cont:
  assumes "hex4 (of_char c) @ s = hex4 (of_char d) @ t"
  shows "c = d \<and> s = t"
proof -
  from assms have "hex4 (of_char c) = hex4 (of_char d) \<and> s = t"
    by (simp add: append_eq_append_conv hex4_length)
  moreover from this have "(of_char c :: nat) = of_char d"
    using hex4_inj of_char_less_256 by blast
  ultimately show ?thesis
    by simp
qed

lemma json_escape_hd:
  "\<exists>x xs. json_escape c = x # xs \<and> x \<noteq> CHR ''\"''"
  by (simp add: json_escape_def)

lemma json_escape_shape:
  "(json_escape c = [c] \<and> c \<noteq> CHR 0x5C \<and> c \<noteq> CHR ''\"'') \<or>
   (\<exists>e. json_escape c = [CHR 0x5C, e] \<and> e \<noteq> CHR ''u'' \<and>
      (\<forall>d. json_escape d = [CHR 0x5C, e] \<longrightarrow> d = c)) \<or>
   json_escape c = [CHR 0x5C, CHR ''u''] @ hex4 (of_char c)"
  by (simp add: json_escape_def)

lemma json_escape_shape_le:
  "(json_escape c = [c] \<and> c \<noteq> CHR 0x5C) \<or>
   (\<exists>e. json_escape c = [CHR 0x5C, e] \<and> e \<noteq> CHR ''u'') \<or>
   (\<exists>r. json_escape c = CHR 0x5C # CHR ''u'' # r)"
  by (simp add: json_escape_def)

lemma json_escape_shape_backslash:
  "(json_escape c = [c] \<and> c \<noteq> CHR 0x5C) \<or> (\<exists>r. json_escape c = CHR 0x5C # r)"
  by (simp add: json_escape_def)

lemma json_escape_cont:
  assumes "json_escape c @ s = json_escape d @ t"
  shows "c = d \<and> s = t"
proof -
  consider (p) "json_escape c = [c]" "c \<noteq> CHR 0x5C"
    | (e) e where "json_escape c = [CHR 0x5C, e]" "e \<noteq> CHR ''u''"
        "\<And>x. json_escape x = [CHR 0x5C, e] \<Longrightarrow> x = c"
    | (u) "json_escape c = [CHR 0x5C, CHR ''u''] @ hex4 (of_char c)"
    using json_escape_shape [of c] by blast
  then show ?thesis
  proof cases
    case p
    consider (p') "json_escape d = [d]" "d \<noteq> CHR 0x5C"
      | (r') r where "json_escape d = CHR 0x5C # r"
      using json_escape_shape_backslash [of d] by blast
    then show ?thesis
    proof cases
      case p'
      with p assms show ?thesis by simp
    next
      case r'
      with p assms show ?thesis by simp
    qed
  next
    case e
    consider (p') "json_escape d = [d]" "d \<noteq> CHR 0x5C"
      | (e') e' where "json_escape d = [CHR 0x5C, e']" "e' \<noteq> CHR ''u''"
      | (u') r where "json_escape d = CHR 0x5C # CHR ''u'' # r"
      using json_escape_shape_le [of d] by blast
    then show ?thesis
    proof cases
      case p'
      with e(1,2) assms show ?thesis by simp
    next
      case e'
      with e(1) assms have "e = e'" and st: "s = t"
        by simp_all
      with e' have "json_escape d = [CHR 0x5C, e]"
        by simp
      then have "d = c"
        by (rule e(3))
      with st show ?thesis by simp
    next
      case u'
      with e(1,2) assms show ?thesis by simp
    qed
  next
    case u
    consider (p') "json_escape d = [d]" "d \<noteq> CHR 0x5C"
      | (e') e' where "json_escape d = [CHR 0x5C, e']" "e' \<noteq> CHR ''u''"
      | (u') "json_escape d = [CHR 0x5C, CHR ''u''] @ hex4 (of_char d)"
      using json_escape_shape [of d] by blast
    then show ?thesis
    proof cases
      case p'
      with u assms show ?thesis by simp
    next
      case e'
      with u assms show ?thesis by simp
    next
      case u'
      with u assms have "hex4 (of_char c) @ s = hex4 (of_char d) @ t"
        by simp
      then show ?thesis
        by (rule hex4_cont)
    qed
  qed
qed

lemma json_escapes_cont:
  "concat (map json_escape x) @ CHR ''\"'' # s = concat (map json_escape y) @ CHR ''\"'' # t
     \<Longrightarrow> x = y \<and> s = t"
proof (induction x arbitrary: y)
  case Nil
  show ?case
  proof (cases y)
    case Nil
    with Nil.prems show ?thesis by simp
  next
    case (Cons d ys)
    with Nil.prems json_escape_hd [of d] show ?thesis
      by auto
  qed
next
  case (Cons c xs)
  show ?case
  proof (cases y)
    case Nil
    with Cons.prems json_escape_hd [of c] show ?thesis
      by auto
  next
    case (Cons d ys)
    with Cons.prems have
      "json_escape c @ (concat (map json_escape xs) @ CHR ''\"'' # s) =
       json_escape d @ (concat (map json_escape ys) @ CHR ''\"'' # t)"
      by simp
    then have "c = d" and
      "concat (map json_escape xs) @ CHR ''\"'' # s = concat (map json_escape ys) @ CHR ''\"'' # t"
      by (blast dest: json_escape_cont)+
    with Cons.IH [of ys] Cons show ?thesis
      by simp
  qed
qed

text \<open>A string literal is determined by a text that starts with it.\<close>

lemma json_string_cont: "json_string x @ s = json_string y @ t \<Longrightarrow> x = y \<and> s = t"
  using json_escapes_cont [of x s y t] by (simp add: json_string_def)

lemma json_string_hd: "\<exists>r. json_string x = CHR ''\"'' # r"
  by (simp add: json_string_def)


section \<open>\<^verbatim>\<open>difference\<close>\<close>

lemma set_node_refs: "set (node_refs n) = set_FlowExtraNode n"
proof (induction n)
  case (FlowExtraNode ms ch)
  then show ?case
    by (cases ch) auto
qed

lemma map_nth_valid: "\<forall>r \<in> set rs. r < length h \<Longrightarrow> map (nth (h @ ext)) rs = map (nth h) rs"
  by (simp add: nth_append)

lemma read_error_valid:
  assumes "\<forall>r \<in> set (error_refs e). r < length h"
  shows "read_error (h @ ext) e = read_error h e"
proof -
  have m: "map (nth (h @ ext)) (message e) = map (nth h) (message e)"
    using assms by (intro map_nth_valid) (simp add: error_refs_def)
  have t: "map_js (map (nth (h @ ext))) (trace e) = map_js (map (nth h)) (trace e)"
    using assms by (cases "trace e") (simp_all add: error_refs_def js_list_def nth_append)
  have o: "map_js (nth (h @ ext)) (operation e) = map_js (nth h) (operation e)"
    using assms by (cases "operation e") (simp_all add: error_refs_def js_list_def nth_append)
  have "map_FlowExtraNode (nth (h @ ext)) n = map_FlowExtraNode (nth h) n"
    if "n \<in> set (js_list (extra e))" for n
  proof (rule FlowExtraNode.map_cong [OF refl])
    fix z assume "z \<in> set_FlowExtraNode n"
    then have "z \<in> set (error_refs e)"
      using that by (auto simp: error_refs_def set_node_refs)
    then show "(h @ ext) ! z = h ! z"
      using assms by (simp add: nth_append)
  qed
  then have x: "map_js (map (map_FlowExtraNode (nth (h @ ext)))) (extra e) =
                map_js (map (map_FlowExtraNode (nth h))) (extra e)"
    by (cases "extra e") (simp_all add: js_list_def)
  show ?thesis
    by (simp add: read_error_def m t o x)
qed

lemma read_result_valid:
  assumes "\<forall>r \<in> set (result_refs r). r < length h"
  shows "read_result (h @ ext) r = read_result h r"
proof -
  have "read_error (h @ ext) e = read_error h e" if "e \<in> set (errors r)" for e
    using assms error_refs_in_result [OF that] by (intro read_error_valid) auto
  then show ?thesis
    by (simp add: read_result_def)
qed








lemma difference_unchanged: "unchanged (length h) h (fst (difference h a b))"
proof -
  have "\<exists>new. fst (foldl (difference_step oh) s xs) = fst s @ new" for oh s xs
  proof (induction xs arbitrary: s)
    case Nil
    show ?case by simp
  next
    case (Cons x xs)
    obtain hc out where s: "s = (hc, out)"
      by (cases s)
    obtain h1 copy where c: "store_error hc (read_error hc x) = (h1, copy)"
      by (cases "store_error hc (read_error hc x)")
    have "difference_step oh s x = (hc, out) \<or> difference_step oh s x = (h1, out @ [copy])"
      by (simp add: difference_step_def s c)
    then obtain new where "fst (difference_step oh s x) = fst s @ new"
      using store_error_eq(1) [OF c] s by auto
    with Cons [of "difference_step oh s x"] show ?case
      by auto
  qed
  from this [of "oldHashes_of h (errors b)" "(h, [])" "errors a"]
  obtain new where "fst (foldl (difference_step (oldHashes_of h (errors b))) (h, [])
                           (errors a)) = h @ new"
    by auto
  then have "fst (difference h a b) = h @ new"
    by (auto simp: difference_def split: prod.splits)
  then show ?thesis
    by (simp add: unchanged_append)
qed

lemma read_result_unchanged:
  assumes "unchanged (length h) h h'" and "\<forall>x \<in> set (result_refs R). x < length h"
  shows "read_result h' R = read_result h R"
proof -
  have "h' = h @ drop (length h) h'"
    using unchanged_whole [OF assms(1)] by (metis append_take_drop_id)
  then show ?thesis
    using read_result_valid [OF assms(2), of "drop (length h) h'"] by simp
qed



text \<open>
  C9. After \<open>difference\<close>, \<open>prettyPrint\<close> or \<open>prettyPrintWithHeader\<close>, whether it returned
  or threw, the store begins with the store the call started from: every write of the
  planner and of the merge pass went to an object allocated during the call. Hence any
  report whose objects were in the store (the argument, the baseline) reads as before.
\<close>

theorem caller_report_unchanged:
  "take (length h) (fst (difference h a b)) = h \<and>
   take (length h) (fst (prettyPrint h r)) = h \<and>
   take (length h) (fst (prettyPrintWithHeader h r)) = h \<and>
   (\<forall>R. (\<forall>x \<in> set (result_refs R). x < length h) \<longrightarrow>
      read_result (fst (difference h a b)) R = read_result h R \<and>
      read_result (fst (prettyPrint h r)) R = read_result h R \<and>
      read_result (fst (prettyPrintWithHeader h r)) R = read_result h R)"
  using difference_unchanged [of h a b] prettyPrint_unchanged [of h r]
    prettyPrintWithHeader_unchanged [of h r]
  by (simp add: unchanged_whole read_result_unchanged)

text \<open>
  For the report with an extra comment, \<open>prettyPrint\<close> raises the indent of the copy of
  the comment and joins its text to the copy of the message; the two objects of the
  caller stay as they were.
\<close>

theorem caller_report_unchanged_witness:
  "result_refs ex_extra_result = [0, 1] \<and> 0 < length ex_extra_heap \<and>
   1 < length ex_extra_heap \<and>
   fst (prettyPrint ex_extra_heap ex_extra_result) =
     ex_extra_heap @
     [ex_call_message\<lparr>descr := ''Cannot call function. see also''\<rparr>,
      (mkComment ''see also'')\<lparr>indent := Val 2,
                                msg_keys := [''descr'', ''type'', ''indent'']\<rparr>,
      mkComment ''a.js:3''] \<and>
   read_result (fst (prettyPrint ex_extra_heap ex_extra_result)) ex_extra_result =
     read_result ex_extra_heap ex_extra_result"
proof -
  have r: "result_refs ex_extra_result = [0, 1]"
    by code_simp
  have l: "length ex_extra_heap = 2"
    by (simp add: ex_extra_heap_def)
  have p: "fst (prettyPrint ex_extra_heap ex_extra_result) =
     ex_extra_heap @
     [ex_call_message\<lparr>descr := ''Cannot call function. see also''\<rparr>,
      (mkComment ''see also'')\<lparr>indent := Val 2,
                                msg_keys := [''descr'', ''type'', ''indent'']\<rparr>,
      mkComment ''a.js:3'']"
    by code_simp
  from caller_report_unchanged [of ex_extra_heap ex_extra_result ex_extra_result
      ex_extra_result]
  have "read_result (fst (prettyPrint ex_extra_heap ex_extra_result)) ex_extra_result =
          read_result ex_extra_heap ex_extra_result"
    using r l by simp
  with r l p show ?thesis
    by simp
qed

end
